theory Spec2Isabelle
  imports Main "HOL-Library.Word"
begin

unbundle bit_operations_syntax

section \<open>Machine model\<close>

text \<open>
  The allocator of \<^verbatim>\<open>mm.c\<close> is embedded for an LP64 little-endian target:
  \<^verbatim>\<open>unsigned int\<close> has 32 bits, \<^verbatim>\<open>size_t\<close>, \<^verbatim>\<open>long\<close> and pointers have 64 bits
  (the checker of the source places the epilogue header at \<^verbatim>\<open>mem_heap_hi() - 7\<close>,
  that is eight bytes before the break, which is the width of its \<^verbatim>\<open>size_t\<close> header).
  Memory is a function from byte addresses to bytes. Addresses are mathematical
  integers: pointer arithmetic that leaves the region is undefined in C, and the model
  reports every access outside the region obtained from the provider as \<open>Fault\<close>.
  A failed \<^verbatim>\<open>assert\<close> is \<open>AssertFail\<close>; a \<^verbatim>\<open>memcpy\<close> on overlapping ranges, which the
  C standard leaves undefined, is \<open>Undefined\<close>.
\<close>

type_synonym addr = int
type_synonym byte = "8 word"
type_synonym uint = "32 word"
type_synonym size_t = "64 word"

datatype error = Fault | AssertFail | Undefined

text \<open>
  The global variables of the source (\<^verbatim>\<open>heap_listp\<close>, \<^verbatim>\<open>rover\<close>, \<^verbatim>\<open>freeHead\<close>,
  \<^verbatim>\<open>firstHead\<close>, \<^verbatim>\<open>num_freeblocks\<close>) together with the memory and the state of the
  region provider (\<^verbatim>\<open>memlib\<close>: start of the region, current break, capacity limit).
\<close>

record state =
  mem :: "addr \<Rightarrow> byte"
  mem_start_brk :: addr
  mem_brk :: addr
  mem_max_addr :: addr
  heap_listp :: addr
  rover :: addr
  freeHead :: addr
  firstHead :: addr
  num_freeblocks :: int

abbreviation NULL :: addr where "NULL \<equiv> 0"

text \<open>Operations that always return: a state transformer with errors.\<close>

type_synonym 'a M = "state \<Rightarrow> error + ('a \<times> state)"

definition ret :: "'a \<Rightarrow> 'a M" where
  "ret x = (\<lambda>s. Inr (x, s))"

definition bnd :: "'a M \<Rightarrow> ('a \<Rightarrow> 'b M) \<Rightarrow> 'b M" where
  "bnd m f = (\<lambda>s. case m s of Inl e \<Rightarrow> Inl e | Inr (x, s') \<Rightarrow> f x s')"

definition gets :: "(state \<Rightarrow> 'a) \<Rightarrow> 'a M" where
  "gets f = (\<lambda>s. Inr (f s, s))"

definition modify :: "(state \<Rightarrow> state) \<Rightarrow> unit M" where
  "modify g = (\<lambda>s. Inr ((), g s))"

definition assert :: "bool \<Rightarrow> unit M" where
  "assert b = (\<lambda>s. if b then Inr ((), s) else Inl AssertFail)"

text \<open>Operations that may loop forever: \<open>None\<close> is non-termination.\<close>

type_synonym 'a MO = "state \<Rightarrow> (error + ('a \<times> state)) option"

definition lift :: "'a M \<Rightarrow> 'a MO" where
  "lift m = (\<lambda>s. Some (m s))"

definition obnd :: "'a MO \<Rightarrow> ('a \<Rightarrow> 'b MO) \<Rightarrow> 'b MO" where
  "obnd m f = (\<lambda>s. case m s of None \<Rightarrow> None | Some (Inl e) \<Rightarrow> Some (Inl e)
                   | Some (Inr (x, s')) \<Rightarrow> f x s')"

subsection \<open>Memory accesses\<close>

definition in_heap :: "state \<Rightarrow> addr \<Rightarrow> int \<Rightarrow> bool" where
  "in_heap s a n = (mem_start_brk s \<le> a \<and> a + n \<le> mem_brk s)"

definition load32 :: "(addr \<Rightarrow> byte) \<Rightarrow> addr \<Rightarrow> uint" where
  "load32 m a = ucast (m a) OR push_bit 8 (ucast (m (a + 1)))
     OR push_bit 16 (ucast (m (a + 2))) OR push_bit 24 (ucast (m (a + 3)))"

definition store32 :: "(addr \<Rightarrow> byte) \<Rightarrow> addr \<Rightarrow> uint \<Rightarrow> (addr \<Rightarrow> byte)" where
  "store32 m a v = m(a := ucast v, a + 1 := ucast (drop_bit 8 v),
     a + 2 := ucast (drop_bit 16 v), a + 3 := ucast (drop_bit 24 v))"

definition load64 :: "(addr \<Rightarrow> byte) \<Rightarrow> addr \<Rightarrow> size_t" where
  "load64 m a = ucast (load32 m a) OR push_bit 32 (ucast (load32 m (a + 4)))"

text \<open>\<^verbatim>\<open>#define GET(p) (*(unsigned int *)(p))\<close>\<close>

definition GET :: "addr \<Rightarrow> uint M" where
  "GET p = (\<lambda>s. if in_heap s p 4 then Inr (load32 (mem s) p, s) else Inl Fault)"

text \<open>\<^verbatim>\<open>#define PUT(p, val) (*(unsigned int *)(p) = (val))\<close>: the value is converted to
  \<^verbatim>\<open>unsigned int\<close> by the assignment.\<close>

definition PUT :: "addr \<Rightarrow> size_t \<Rightarrow> unit M" where
  "PUT p val = (\<lambda>s. if in_heap s p 4
     then Inr ((), s\<lparr>mem := store32 (mem s) p (ucast val)\<rparr>) else Inl Fault)"

text \<open>A \<^verbatim>\<open>size_t\<close> or pointer read through a \<^verbatim>\<open>size_t *\<close>, \<^verbatim>\<open>header_t *\<close> or
  \<^verbatim>\<open>freeblock_t *\<close>.\<close>

definition GET64 :: "addr \<Rightarrow> size_t M" where
  "GET64 p = (\<lambda>s. if in_heap s p 8 then Inr (load64 (mem s) p, s) else Inl Fault)"

text \<open>\<^verbatim>\<open>memcpy(dst, src, n)\<close>: both ranges must lie in the region and must not overlap.\<close>

definition memcpy :: "addr \<Rightarrow> addr \<Rightarrow> size_t \<Rightarrow> unit M" where
  "memcpy dst src n = (\<lambda>s.
     if n = 0 then Inr ((), s)
     else if \<not> in_heap s src (uint n) \<or> \<not> in_heap s dst (uint n) then Inl Fault
     else if \<not> (src + uint n \<le> dst \<or> dst + uint n \<le> src) then Inl Undefined
     else Inr ((), s\<lparr>mem := (\<lambda>a. if dst \<le> a \<and> a < dst + uint n
                                    then mem s (src + (a - dst)) else mem s a)\<rparr>))"

subsection \<open>The region provider\<close>

text \<open>
  Modelled from the spec: the region provider (\<^verbatim>\<open>memlib.c\<close>, declared in \<^verbatim>\<open>memlib.h\<close>)
  is not part of the sources. Section 6 of the specification describes it:
  \<^verbatim>\<open>extend(byte_count)\<close> grows the region by exactly \<^verbatim>\<open>byte_count\<close> contiguous bytes and
  returns the address of the start of the newly added span, and fails if the capacity is
  exhausted (the source tests the failure value \<^verbatim>\<open>(void *)-1\<close>);
  \<^verbatim>\<open>region_low\<close> and \<^verbatim>\<open>region_high\<close> are the inclusive bounds of the live region.
\<close>

definition mem_sbrk :: "int \<Rightarrow> addr M" where
  "mem_sbrk incr = (\<lambda>s.
     if mem_brk s + incr > mem_max_addr s then Inr (- 1, s)
     else Inr (mem_brk s, s\<lparr>mem_brk := mem_brk s + incr\<rparr>))"

definition mem_heap_lo :: "state \<Rightarrow> addr" where
  "mem_heap_lo s = mem_start_brk s"

definition mem_heap_hi :: "state \<Rightarrow> addr" where
  "mem_heap_hi s = mem_brk s - 1"

text \<open>
  Modelled from the spec: the state in which the provider hands over an empty region of
  capacity \<open>cap\<close> at address \<open>base\<close>, with arbitrary memory contents \<open>m\<close>; the statics of
  \<^verbatim>\<open>mm.c\<close> have their C initial values.
\<close>

definition fresh :: "addr \<Rightarrow> int \<Rightarrow> (addr \<Rightarrow> byte) \<Rightarrow> state" where
  "fresh base cap m = \<lparr>mem = m, mem_start_brk = base, mem_brk = base,
     mem_max_addr = base + cap, heap_listp = 0, rover = 0,
     freeHead = 0, firstHead = 0, num_freeblocks = 0\<rparr>"

section \<open>The macros of \<^verbatim>\<open>mm.c\<close>\<close>

definition WSIZE :: int where "WSIZE = 4"
definition DSIZE :: int where "DSIZE = 8"
definition CHUNKSIZE :: size_t where "CHUNKSIZE = 4096"

text \<open>\<^verbatim>\<open>#define PACK(size, alloc) ((size) | (alloc))\<close>\<close>

definition PACK :: "size_t \<Rightarrow> size_t \<Rightarrow> size_t" where
  "PACK sz alloc = sz OR alloc"

text \<open>\<^verbatim>\<open>#define GET_SIZE(p) (GET(p) & ~0x7)\<close> and \<^verbatim>\<open>#define GET_ALLOC(p) (GET(p) & 0x1)\<close>\<close>

definition GET_SIZE :: "addr \<Rightarrow> uint M" where
  "GET_SIZE p = bnd (GET p) (\<lambda>w. ret (w AND NOT 7))"

definition GET_ALLOC :: "addr \<Rightarrow> uint M" where
  "GET_ALLOC p = bnd (GET p) (\<lambda>w. ret (w AND 1))"

definition HDRP :: "addr \<Rightarrow> addr" where
  "HDRP bp = bp - WSIZE"

definition FTRP :: "addr \<Rightarrow> addr M" where
  "FTRP bp = bnd (GET_SIZE (HDRP bp)) (\<lambda>sz. ret (bp + uint sz - DSIZE))"

definition NEXT_BLKP :: "addr \<Rightarrow> addr M" where
  "NEXT_BLKP bp = bnd (GET_SIZE (bp - WSIZE)) (\<lambda>sz. ret (bp + uint sz))"

definition PREV_BLKP :: "addr \<Rightarrow> addr M" where
  "PREV_BLKP bp = bnd (GET_SIZE (bp - DSIZE)) (\<lambda>sz. ret (bp - uint sz))"

section \<open>Coalescing, heap extension, placement\<close>

definition coalesce :: "addr \<Rightarrow> addr M" where
  "coalesce bp0 =
     bnd (PREV_BLKP bp0) (\<lambda>pb. bnd (FTRP pb) (\<lambda>pf. bnd (GET_ALLOC pf) (\<lambda>prev_alloc.
     bnd (NEXT_BLKP bp0) (\<lambda>nb. bnd (GET_ALLOC (HDRP nb)) (\<lambda>next_alloc.
     bnd (GET_SIZE (HDRP bp0)) (\<lambda>sz.
     let size0 = (ucast sz :: size_t) in
     if prev_alloc \<noteq> 0 \<and> next_alloc \<noteq> 0 then ret bp0
     else bnd
       (if prev_alloc \<noteq> 0 \<and> next_alloc = 0 then
          bnd (NEXT_BLKP bp0) (\<lambda>nb. bnd (GET_SIZE (HDRP nb)) (\<lambda>nsz.
          let size1 = size0 + ucast nsz in
          bnd (PUT (HDRP bp0) (PACK size1 0)) (\<lambda>_.
          bnd (FTRP bp0) (\<lambda>f. bnd (PUT f (PACK size1 0)) (\<lambda>_.
          ret bp0)))))
        else if prev_alloc = 0 \<and> next_alloc \<noteq> 0 then
          bnd (PREV_BLKP bp0) (\<lambda>pb. bnd (GET_SIZE (HDRP pb)) (\<lambda>psz.
          let size1 = size0 + ucast psz in
          bnd (FTRP bp0) (\<lambda>f. bnd (PUT f (PACK size1 0)) (\<lambda>_.
          bnd (PREV_BLKP bp0) (\<lambda>pb. bnd (PUT (HDRP pb) (PACK size1 0)) (\<lambda>_.
          PREV_BLKP bp0))))))
        else
          bnd (PREV_BLKP bp0) (\<lambda>pb. bnd (GET_SIZE (HDRP pb)) (\<lambda>psz.
          bnd (NEXT_BLKP bp0) (\<lambda>nb. bnd (FTRP nb) (\<lambda>nf. bnd (GET_SIZE nf) (\<lambda>nsz.
          let size1 = size0 + ucast (psz + nsz) in
          bnd (PREV_BLKP bp0) (\<lambda>pb. bnd (PUT (HDRP pb) (PACK size1 0)) (\<lambda>_.
          bnd (NEXT_BLKP bp0) (\<lambda>nb. bnd (FTRP nb) (\<lambda>nf. bnd (PUT nf (PACK size1 0)) (\<lambda>_.
          PREV_BLKP bp0)))))))))))
       (\<lambda>bp. bnd (gets rover) (\<lambda>r. bnd (NEXT_BLKP bp) (\<lambda>nx.
          if r < nx \<and> r > bp then bnd (modify (rover_update (\<lambda>_. bp))) (\<lambda>_. ret bp)
          else ret bp)))))))))"

text \<open>\<^verbatim>\<open>extend_heap\<close> returns \<open>NULL\<close> when the provider fails.\<close>

definition extend_heap :: "size_t \<Rightarrow> addr M" where
  "extend_heap words =
     (let size1 = (if words mod 2 \<noteq> 0 then (words + 1) * 4 else words * 4) in
      bnd (mem_sbrk (uint size1)) (\<lambda>bp.
      if bp = - 1 then ret NULL
      else bnd (PUT (HDRP bp) (PACK size1 0)) (\<lambda>_.
           bnd (FTRP bp) (\<lambda>f. bnd (PUT f (PACK size1 0)) (\<lambda>_.
           bnd (NEXT_BLKP bp) (\<lambda>nb. bnd (PUT (HDRP nb) (PACK 0 1)) (\<lambda>_.
           coalesce bp)))))))"

definition place :: "addr \<Rightarrow> size_t \<Rightarrow> unit M" where
  "place bp asize =
     bnd (GET_SIZE (HDRP bp)) (\<lambda>sz.
     let csize = (ucast sz :: size_t) in
     if csize - asize \<ge> 16 then
       bnd (PUT (HDRP bp) (PACK asize 1)) (\<lambda>_.
       bnd (FTRP bp) (\<lambda>f. bnd (PUT f (PACK asize 1)) (\<lambda>_.
       bnd (NEXT_BLKP bp) (\<lambda>bp.
       bnd (PUT (HDRP bp) (PACK (csize - asize) 0)) (\<lambda>_.
       bnd (FTRP bp) (\<lambda>f. PUT f (PACK (csize - asize) 0)))))))
     else
       bnd (PUT (HDRP bp) (PACK csize 1)) (\<lambda>_.
       bnd (FTRP bp) (\<lambda>f. PUT f (PACK csize 1))))"

section \<open>Next-fit search\<close>

text \<open>The first loop of \<^verbatim>\<open>find_fit\<close>: \<open>Some rover\<close> when the loop returns the block under
  the cursor, \<open>None\<close> when it ends at a header of size 0.\<close>

partial_function (option) find_fit_fwd ::
  "size_t \<Rightarrow> state \<Rightarrow> (error + (addr option \<times> state)) option"
  where
  "find_fit_fwd asize s =
     (case GET_SIZE (HDRP (rover s)) s of
        Inl e \<Rightarrow> Some (Inl e)
      | Inr (sz, _) \<Rightarrow>
          if sz = 0 then Some (Inr (None, s))
          else (case GET_ALLOC (HDRP (rover s)) s of
                  Inl e \<Rightarrow> Some (Inl e)
                | Inr (al, _) \<Rightarrow>
                    if al = 0 \<and> asize \<le> ucast sz then Some (Inr (Some (rover s), s))
                    else (case NEXT_BLKP (rover s) s of
                            Inl e \<Rightarrow> Some (Inl e)
                          | Inr (nb, _) \<Rightarrow> find_fit_fwd asize (s\<lparr>rover := nb\<rparr>))))"

text \<open>The second loop: from \<open>bp\<close> up to, and not including, \<open>oldrover\<close>.\<close>

partial_function (option) find_fit_wrap ::
  "size_t \<Rightarrow> addr \<Rightarrow> addr \<Rightarrow> state \<Rightarrow> (error + (addr \<times> state)) option"
  where
  "find_fit_wrap asize oldrover bp s =
     (if bp < oldrover then
        (case GET_ALLOC (HDRP bp) s of
           Inl e \<Rightarrow> Some (Inl e)
         | Inr (al, _) \<Rightarrow>
             (case GET_SIZE (HDRP bp) s of
                Inl e \<Rightarrow> Some (Inl e)
              | Inr (sz, _) \<Rightarrow>
                  if al = 0 \<and> asize \<le> ucast sz then Some (Inr (bp, s))
                  else (case NEXT_BLKP bp s of
                          Inl e \<Rightarrow> Some (Inl e)
                        | Inr (nb, _) \<Rightarrow> find_fit_wrap asize oldrover nb s)))
      else Some (Inr (NULL, s)))"

definition find_fit :: "size_t \<Rightarrow> addr MO" where
  "find_fit asize = (\<lambda>s.
     let oldrover = rover s in
     obnd (find_fit_fwd asize) (\<lambda>r.
       case r of
         Some p \<Rightarrow> lift (ret p)
       | None \<Rightarrow> obnd (lift (gets heap_listp)) (\<lambda>bp. find_fit_wrap asize oldrover bp)) s)"

section \<open>The public operations\<close>

definition mm_init :: "int M" where
  "mm_init =
     bnd (mem_sbrk (4 * WSIZE)) (\<lambda>p.
     bnd (modify (heap_listp_update (\<lambda>_. p))) (\<lambda>_.
     if p = - 1 then ret (- 1)
     else bnd (PUT p 0) (\<lambda>_.
          bnd (PUT (p + 1 * WSIZE) (PACK 8 1)) (\<lambda>_.
          bnd (PUT (p + 2 * WSIZE) (PACK 8 1)) (\<lambda>_.
          bnd (PUT (p + 3 * WSIZE) (PACK 0 1)) (\<lambda>_.
          bnd (modify (heap_listp_update (\<lambda>h. h + 2 * WSIZE))) (\<lambda>_.
          bnd (modify (\<lambda>s. s\<lparr>rover := heap_listp s\<rparr>)) (\<lambda>_.
          bnd (extend_heap (CHUNKSIZE div 4)) (\<lambda>bp.
          if bp = NULL then ret (- 1) else ret 0)))))))))"

text \<open>The adjusted block size computed by \<^verbatim>\<open>mm_malloc\<close>, in \<^verbatim>\<open>size_t\<close> arithmetic.\<close>

definition adjust_size :: "size_t \<Rightarrow> size_t" where
  "adjust_size sz = (if sz \<le> 8 then 2 * 8 else 8 * ((sz + 8 + (8 - 1)) div 8))"

definition mm_malloc :: "size_t \<Rightarrow> addr MO" where
  "mm_malloc sz =
     (if sz = 0 then lift (ret NULL)
      else
        let asize = adjust_size sz in
        obnd (find_fit asize) (\<lambda>bp.
          if bp \<noteq> NULL then lift (bnd (place bp asize) (\<lambda>_. ret bp))
          else
            let extendsize = max asize CHUNKSIZE in
            lift (bnd (extend_heap (extendsize div 4)) (\<lambda>bp.
              if bp = NULL then ret NULL
              else bnd (place bp asize) (\<lambda>_. ret bp)))))"

definition mm_free :: "addr \<Rightarrow> unit M" where
  "mm_free bp =
     (if bp = NULL then ret ()
      else bnd (GET_SIZE (HDRP bp)) (\<lambda>sz.
           let size0 = (ucast sz :: size_t) in
           bnd (PUT (HDRP bp) (PACK size0 0)) (\<lambda>_.
           bnd (FTRP bp) (\<lambda>f. bnd (PUT f (PACK size0 0)) (\<lambda>_.
           bnd (coalesce bp) (\<lambda>_. ret ()))))))"

text \<open>\<^verbatim>\<open>#define ALIGN(size) (((size) + (ALIGNMENT - 1)) & ~0x7)\<close> and
  \<^verbatim>\<open>#define SIZE_T_SIZE (ALIGN(sizeof(size_t)))\<close>\<close>

definition ALIGN :: "size_t \<Rightarrow> size_t" where
  "ALIGN sz = (sz + (8 - 1)) AND NOT 7"

definition SIZE_T_SIZE :: size_t where
  "SIZE_T_SIZE = ALIGN 8"

text \<open>The number of bytes \<^verbatim>\<open>mm_realloc\<close> hands to \<^verbatim>\<open>memcpy\<close>: the \<^verbatim>\<open>size_t\<close> read at
  \<^verbatim>\<open>oldptr - SIZE_T_SIZE\<close>, or the new size when that is smaller.\<close>

definition realloc_copy :: "addr \<Rightarrow> size_t \<Rightarrow> size_t M" where
  "realloc_copy oldptr sz =
     bnd (GET64 (oldptr - uint SIZE_T_SIZE)) (\<lambda>copy.
     ret (if sz < copy then sz else copy))"

definition mm_realloc :: "addr \<Rightarrow> size_t \<Rightarrow> addr MO" where
  "mm_realloc oldptr sz =
     obnd (mm_malloc sz) (\<lambda>newptr.
       if newptr = NULL then lift (ret NULL)
       else if sz = 0 then lift (bnd (mm_free oldptr) (\<lambda>_. ret NULL))
       else lift (bnd (realloc_copy oldptr sz) (\<lambda>copy.
                  bnd (memcpy newptr oldptr copy) (\<lambda>_.
                  bnd (mm_free oldptr) (\<lambda>_. ret newptr)))))"

section \<open>The heap checker\<close>

text \<open>
  The helper functions used by \<^verbatim>\<open>mm_check\<close> read a header or footer as a \<^verbatim>\<open>size_t\<close>
  (\<^verbatim>\<open>header_t\<close>, \<^verbatim>\<open>footer_t\<close>) and start with \<^verbatim>\<open>assert\<close> on their pointer argument.
  Their address arithmetic is done on \<^verbatim>\<open>size_t\<close>.
\<close>

definition get_size_footer :: "addr \<Rightarrow> size_t M" where
  "get_size_footer f = bnd (assert (f \<noteq> NULL)) (\<lambda>_. bnd (GET64 f) (\<lambda>v. ret (NOT 7 AND v)))"

definition get_size :: "addr \<Rightarrow> size_t M" where
  "get_size h = bnd (assert (h \<noteq> NULL)) (\<lambda>_. bnd (GET64 h) (\<lambda>v. ret (NOT 7 AND v)))"

definition get_alloc :: "addr \<Rightarrow> size_t M" where
  "get_alloc h = bnd (assert (h \<noteq> NULL)) (\<lambda>_. bnd (GET64 h) (\<lambda>v. ret (v AND 1)))"

definition get_footer :: "addr \<Rightarrow> addr M" where
  "get_footer h = bnd (assert (h \<noteq> NULL)) (\<lambda>_.
     bnd (get_size h) (\<lambda>sz. ret (uint ((word_of_int h :: size_t) + sz - 8))))"

definition get_above_header :: "addr \<Rightarrow> addr M" where
  "get_above_header h = bnd (assert (h \<noteq> NULL)) (\<lambda>_.
     bnd (get_size h) (\<lambda>sz. ret (uint ((word_of_int h :: size_t) + sz))))"

definition get_below_header :: "addr \<Rightarrow> addr M" where
  "get_below_header h = bnd (assert (h \<noteq> NULL)) (\<lambda>_.
     let prev_footer = uint ((word_of_int h :: size_t) - 8) in
     bnd (get_size_footer prev_footer) (\<lambda>sz. ret (uint ((word_of_int h :: size_t) - sz))))"

definition get_payload :: "addr \<Rightarrow> addr M" where
  "get_payload h = bnd (assert (h \<noteq> NULL)) (\<lambda>_. ret (uint ((word_of_int h :: size_t) + 8)))"

definition get_freeblock_header :: "addr \<Rightarrow> addr M" where
  "get_freeblock_header fb =
     bnd (assert (fb \<noteq> NULL)) (\<lambda>_. ret (uint ((word_of_int fb :: size_t) - 8)))"

text \<open>The body of the first loop of \<^verbatim>\<open>mm_check\<close>; it returns the next header and the
  new value of \<^verbatim>\<open>prev_alloc\<close>.\<close>

definition check_block :: "addr \<Rightarrow> bool \<Rightarrow> (addr \<times> bool) M" where
  "check_block h prev_alloc =
     bnd (get_footer h) (\<lambda>f.
     bnd (get_size h) (\<lambda>sz.
     bnd (get_size_footer f) (\<lambda>fsz.
     bnd (assert (fsz = sz)) (\<lambda>_.
     bnd (assert (f - uint sz + 8 = h)) (\<lambda>_.
     bnd (if prev_alloc then bnd (get_alloc h) (\<lambda>a. assert (a \<noteq> 0)) else assert False) (\<lambda>_.
     bnd (assert (sz mod 8 = 0)) (\<lambda>_.
     bnd (get_payload h) (\<lambda>p.
     bnd (assert (p mod 8 = 0)) (\<lambda>_.
     bnd (gets mem_heap_lo) (\<lambda>lo.
     bnd (gets mem_heap_hi) (\<lambda>hi.
     bnd (assert (h > lo \<and> h < hi)) (\<lambda>_.
     bnd (get_alloc h) (\<lambda>a.
     bnd (get_above_header h) (\<lambda>h'.
     ret (h', a \<noteq> 0)))))))))))))))"

text \<open>\<^verbatim>\<open>while(get_size(h > 0))\<close>: the argument of \<^verbatim>\<open>get_size\<close> is the value of the
  comparison, 1 or 0, used as a pointer.\<close>

partial_function (option) check_blocks ::
  "addr \<Rightarrow> bool \<Rightarrow> state \<Rightarrow> (error + ((addr \<times> bool) \<times> state)) option"
  where
  "check_blocks h prev_alloc s =
     (case get_size (if h > 0 then 1 else 0) s of
        Inl e \<Rightarrow> Some (Inl e)
      | Inr (c, _) \<Rightarrow>
          if c = 0 then Some (Inr ((h, prev_alloc), s))
          else (case check_block h prev_alloc s of
                  Inl e \<Rightarrow> Some (Inl e)
                | Inr ((h', prev_alloc'), s') \<Rightarrow> check_blocks h' prev_alloc' s'))"

text \<open>The body of the second loop, over the free list: \<^verbatim>\<open>fb\<close> becomes \<^verbatim>\<open>next\<close>, and
  \<^verbatim>\<open>prev\<close> and \<^verbatim>\<open>next\<close> are never advanced. In \<^verbatim>\<open>freeblock_t\<close> the field \<^verbatim>\<open>next\<close> is at
  offset 0 and \<^verbatim>\<open>prev\<close> at offset 8.\<close>

definition check_free :: "addr \<Rightarrow> addr \<Rightarrow> addr \<Rightarrow> unit M" where
  "check_free prev next fb =
     bnd (get_freeblock_header fb) (\<lambda>h.
     bnd (get_alloc h) (\<lambda>a.
     bnd (assert (a = 0)) (\<lambda>_.
     bnd (if prev \<noteq> NULL then bnd (GET64 prev) (\<lambda>n. assert (uint n = fb)) else ret ()) (\<lambda>_.
     bnd (if next \<noteq> NULL then bnd (GET64 (next + 8)) (\<lambda>p. assert (uint p = fb)) else ret ())
       (\<lambda>_.
     bnd (gets mem_heap_lo) (\<lambda>lo.
     bnd (gets mem_heap_hi) (\<lambda>hi.
     assert (fb > lo \<and> fb < hi))))))))"

partial_function (option) check_list ::
  "addr \<Rightarrow> addr \<Rightarrow> addr \<Rightarrow> int \<Rightarrow> state \<Rightarrow> (error + (int \<times> state)) option"
  where
  "check_list prev next fb count s =
     (if fb \<noteq> NULL then
        (case check_free prev next fb s of
           Inl e \<Rightarrow> Some (Inl e)
         | Inr (_, s') \<Rightarrow> check_list prev next next (count + 1) s')
      else Some (Inr (count, s)))"

partial_function (option) check_back :: "addr \<Rightarrow> state \<Rightarrow> (error + (unit \<times> state)) option"
  where
  "check_back fb s =
     (if fb \<noteq> NULL then
        (case GET64 (fb + 8) s of
           Inl e \<Rightarrow> Some (Inl e)
         | Inr (p, s') \<Rightarrow> check_back (uint p) s')
      else Some (Inr ((), s)))"

definition mm_check :: "unit MO" where
  "mm_check =
     obnd (lift (gets firstHead)) (\<lambda>h.
     obnd (lift (get_alloc h)) (\<lambda>a.
     let prev_alloc = (a = 0) in
     obnd (lift (get_below_header h)) (\<lambda>b.
     obnd (lift (gets mem_heap_lo)) (\<lambda>lo.
     obnd (lift (assert (b = lo))) (\<lambda>_.
     obnd (check_blocks h prev_alloc) (\<lambda>(h, prev_alloc).
     obnd (lift (get_above_header h)) (\<lambda>e.
     obnd (lift (gets mem_heap_hi)) (\<lambda>hi.
     obnd (lift (assert (e = hi - 7))) (\<lambda>_.
     obnd (lift (gets freeHead)) (\<lambda>fb.
     obnd (lift (GET64 (fb + 8))) (\<lambda>prev.
     obnd (lift (GET64 fb)) (\<lambda>next.
     obnd (check_list (uint prev) (uint next) fb 0) (\<lambda>count.
     obnd (check_back (uint prev)) (\<lambda>_.
     obnd (lift (gets num_freeblocks)) (\<lambda>n.
     lift (assert (count = n)))))))))))))))))"

section \<open>Sequences of calls\<close>

text \<open>A caller is a list of calls of the public operations; every call returns a value
  (the status of \<^verbatim>\<open>mm_init\<close>, the pointer of \<^verbatim>\<open>mm_malloc\<close> and \<^verbatim>\<open>mm_realloc\<close>, 0 for
  \<^verbatim>\<open>mm_free\<close>).\<close>

datatype call = Init | Malloc size_t | Free addr | Realloc addr size_t

fun exec :: "call \<Rightarrow> int MO" where
  "exec Init = lift mm_init"
| "exec (Malloc n) = mm_malloc n"
| "exec (Free p) = lift (bnd (mm_free p) (\<lambda>_. ret 0))"
| "exec (Realloc p n) = mm_realloc p n"

fun run_calls :: "call list \<Rightarrow> state \<Rightarrow> (error + (int list \<times> state)) option" where
  "run_calls [] s = Some (Inr ([], s))"
| "run_calls (c # cs) s =
     (case exec c s of
        None \<Rightarrow> None
      | Some (Inl e) \<Rightarrow> Some (Inl e)
      | Some (Inr (r, s')) \<Rightarrow>
          (case run_calls cs s' of
             None \<Rightarrow> None
           | Some (Inl e) \<Rightarrow> Some (Inl e)
           | Some (Inr (rs, s'')) \<Rightarrow> Some (Inr (r # rs, s''))))"

text \<open>Observation of an outcome: the values returned, and the header or footer words of
  the final state at the addresses \<open>ps\<close>.\<close>

definition observe ::
  "(error + ('a \<times> state)) option \<Rightarrow> addr list \<Rightarrow> ('a \<times> uint option list) option" where
  "observe r ps = (case r of
       Some (Inr (x, s)) \<Rightarrow>
         Some (x, map (\<lambda>p. case GET p s of Inr (w, _) \<Rightarrow> Some w | Inl _ \<Rightarrow> None) ps)
     | _ \<Rightarrow> None)"

text \<open>The block reached from \<open>bp\<close> by following \<open>n\<close> times the size in the header.\<close>

fun nth_block :: "state \<Rightarrow> nat \<Rightarrow> addr \<Rightarrow> addr option" where
  "nth_block s 0 bp = Some bp"
| "nth_block s (Suc n) bp =
     (case NEXT_BLKP bp s of
        Inr (nb, _) \<Rightarrow> if nb = bp then None else nth_block s n nb
      | Inl _ \<Rightarrow> None)"

text \<open>The block at \<open>bp\<close> is free and has a successor, and the successor is a free block
  (of size other than 0, so not the epilogue).\<close>

definition free_pair :: "state \<Rightarrow> addr \<Rightarrow> bool" where
  "free_pair s bp =
     (case (GET (HDRP bp) s, NEXT_BLKP bp s) of
        (Inr (w, _), Inr (nb, _)) \<Rightarrow>
          w AND NOT 7 \<noteq> 0 \<and> w AND 1 = 0 \<and>
          (case GET (HDRP nb) s of
             Inr (w', _) \<Rightarrow> w' AND NOT 7 \<noteq> 0 \<and> w' AND 1 = 0
           | Inl _ \<Rightarrow> False)
      | _ \<Rightarrow> False)"

text \<open>In the final state of an outcome, the \<open>n\<close>-th block after the prologue is the first
  of two adjacent free blocks.\<close>

definition adjacent_free_at :: "(error + ('a \<times> state)) option \<Rightarrow> nat \<Rightarrow> bool" where
  "adjacent_free_at r n = (case r of
       Some (Inr (_, s)) \<Rightarrow>
         (case nth_block s n (heap_listp s) of Some bp \<Rightarrow> free_pair s bp | None \<Rightarrow> False)
     | _ \<Rightarrow> False)"

text \<open>A provider with room for 1 MiB at address 4096, all bytes zero.\<close>

definition demo :: state where
  "demo = fresh 4096 1048576 (\<lambda>_. 0)"

section \<open>Size adjustment\<close>

definition round_up8 :: "int \<Rightarrow> int" where
  "round_up8 n = ((n + 7) div 8) * 8"

section \<open>Frame conditions\<close>

text \<open>An operation is stable for a relation \<open>R\<close> between states when every run that
  returns relates the state before to the state after.\<close>

definition stable :: "(state \<Rightarrow> state \<Rightarrow> bool) \<Rightarrow> 'a M \<Rightarrow> bool" where
  "stable R m = (\<forall>s r s'. m s = Inr (r, s') \<longrightarrow> R s s')"

definition ostable :: "(state \<Rightarrow> state \<Rightarrow> bool) \<Rightarrow> 'a MO \<Rightarrow> bool" where
  "ostable R m = (\<forall>s r s'. m s = Some (Inr (r, s')) \<longrightarrow> R s s')"

definition preorder_rel :: "(state \<Rightarrow> state \<Rightarrow> bool) \<Rightarrow> bool" where
  "preorder_rel R = ((\<forall>s. R s s) \<and> (\<forall>s t u. R s t \<longrightarrow> R t u \<longrightarrow> R s u))"

text \<open>A frame is a preorder that admits every elementary state change of the allocator:
  writing memory, moving \<^verbatim>\<open>rover\<close> or \<^verbatim>\<open>heap_listp\<close>, and raising the break.\<close>

definition frame :: "(state \<Rightarrow> state \<Rightarrow> bool) \<Rightarrow> bool" where
  "frame R = (preorder_rel R
     \<and> (\<forall>s v. R s (s\<lparr>mem := v\<rparr>))
     \<and> (\<forall>s v. R s (s\<lparr>rover := v\<rparr>))
     \<and> (\<forall>s v. R s (s\<lparr>heap_listp := v\<rparr>))
     \<and> (\<forall>s v. mem_brk s \<le> v \<longrightarrow> R s (s\<lparr>mem_brk := v\<rparr>)))"

text \<open>The free-list variables of the checker keep their values.\<close>

definition untouched :: "state \<Rightarrow> state \<Rightarrow> bool" where
  "untouched s s' = (freeHead s' = freeHead s \<and> firstHead s' = firstHead s
     \<and> num_freeblocks s' = num_freeblocks s)"

section \<open>Boundary tags\<close>

text \<open>The header or footer word of a block of \<open>n\<close> bytes: the size with the allocated
  flag in bit 0.\<close>

definition tag :: "int \<Rightarrow> bool \<Rightarrow> uint" where
  "tag n a = word_of_int n OR (if a then 1 else 0)"

text \<open>A block of \<open>n\<close> bytes with payload pointer \<open>bp\<close> lies in the region, and its header
  (at \<open>bp - 4\<close>) and its footer (at \<open>bp + n - 8\<close>) both carry the size \<open>n\<close> and the
  flag \<open>a\<close>.\<close>

definition tagged :: "state \<Rightarrow> addr \<Rightarrow> int \<Rightarrow> bool \<Rightarrow> bool" where
  "tagged s bp n a =
     (8 \<le> n \<and> n < 2 ^ 32 \<and> n mod 8 = 0 \<and> in_heap s (bp - 4) n \<and>
      load32 (mem s) (bp - 4) = tag n a \<and> load32 (mem s) (bp + n - 8) = tag n a)"

section \<open>The two stages of \<^verbatim>\<open>coalesce\<close>\<close>

text \<open>For the proofs, the body of \<^verbatim>\<open>coalesce\<close> after its three reads is named: the merge
  (cases 2 to 4 of the source), which returns the payload pointer of the merged block, and
  the adjustment of \<^verbatim>\<open>rover\<close> that follows it. Lemma \<open>coalesce_stages\<close> shows that
  \<open>coalesce\<close> is their composition.\<close>

definition coalesce_merge :: "addr \<Rightarrow> uint \<Rightarrow> uint \<Rightarrow> size_t \<Rightarrow> addr M" where
  "coalesce_merge bp0 prev_alloc next_alloc size0 =
     (if prev_alloc \<noteq> 0 \<and> next_alloc = 0 then
        bnd (NEXT_BLKP bp0) (\<lambda>nb. bnd (GET_SIZE (HDRP nb)) (\<lambda>nsz.
        let size1 = size0 + ucast nsz in
        bnd (PUT (HDRP bp0) (PACK size1 0)) (\<lambda>_.
        bnd (FTRP bp0) (\<lambda>f. bnd (PUT f (PACK size1 0)) (\<lambda>_.
        ret bp0)))))
      else if prev_alloc = 0 \<and> next_alloc \<noteq> 0 then
        bnd (PREV_BLKP bp0) (\<lambda>pb. bnd (GET_SIZE (HDRP pb)) (\<lambda>psz.
        let size1 = size0 + ucast psz in
        bnd (FTRP bp0) (\<lambda>f. bnd (PUT f (PACK size1 0)) (\<lambda>_.
        bnd (PREV_BLKP bp0) (\<lambda>pb. bnd (PUT (HDRP pb) (PACK size1 0)) (\<lambda>_.
        PREV_BLKP bp0))))))
      else
        bnd (PREV_BLKP bp0) (\<lambda>pb. bnd (GET_SIZE (HDRP pb)) (\<lambda>psz.
        bnd (NEXT_BLKP bp0) (\<lambda>nb. bnd (FTRP nb) (\<lambda>nf. bnd (GET_SIZE nf) (\<lambda>nsz.
        let size1 = size0 + ucast (psz + nsz) in
        bnd (PREV_BLKP bp0) (\<lambda>pb. bnd (PUT (HDRP pb) (PACK size1 0)) (\<lambda>_.
        bnd (NEXT_BLKP bp0) (\<lambda>nb. bnd (FTRP nb) (\<lambda>nf. bnd (PUT nf (PACK size1 0)) (\<lambda>_.
        PREV_BLKP bp0)))))))))))"

definition fix_rover :: "addr \<Rightarrow> addr M" where
  "fix_rover bp =
     bnd (gets rover) (\<lambda>r. bnd (NEXT_BLKP bp) (\<lambda>nx.
       if r < nx \<and> r > bp then bnd (modify (rover_update (\<lambda>_. bp))) (\<lambda>_. ret bp)
       else ret bp))"

text \<open>The state changes in the cursor only.\<close>

definition only_rover :: "state \<Rightarrow> state \<Rightarrow> bool" where
  "only_rover s s' = (s' = s\<lparr>rover := rover s'\<rparr>)"

text \<open>The state changes in the memory only.\<close>

definition only_mem :: "state \<Rightarrow> state \<Rightarrow> bool" where
  "only_mem s s' = (s' = s\<lparr>mem := mem s'\<rparr>)"

text \<open>The start of the region stays where it is; the region does not shrink.\<close>

definition same_start :: "state \<Rightarrow> state \<Rightarrow> bool" where
  "same_start s s' = (mem_start_brk s' = mem_start_brk s)"

definition grows :: "state \<Rightarrow> state \<Rightarrow> bool" where
  "grows s s' = (mem_start_brk s' = mem_start_brk s \<and> mem_brk s \<le> mem_brk s')"

section \<open>The cursor invariant\<close>




section \<open>The block sequence seen by the search\<close>

text \<open>\<open>chain s p bs q\<close>: starting at the payload pointer \<open>p\<close>, the blocks with payload pointers
  \<open>bs\<close> follow one another in address order and end just before \<open>q\<close>; each has a readable
  header with a size other than 0.\<close>

fun chain :: "state \<Rightarrow> addr \<Rightarrow> addr list \<Rightarrow> addr \<Rightarrow> bool" where
  "chain s p [] q = (p = q)"
| "chain s p (b # bs) q =
     (b = p \<and> (case NEXT_BLKP p s of
                 Inr (nb, _) \<Rightarrow> nb \<noteq> p \<and> chain s nb bs q
               | Inl _ \<Rightarrow> False))"

text \<open>The fit test of the search: the block is FREE and its size is at least \<open>asize\<close>.\<close>

definition fits :: "state \<Rightarrow> size_t \<Rightarrow> addr \<Rightarrow> bool" where
  "fits s asize bp =
     (case GET (HDRP bp) s of
        Inr (w, _) \<Rightarrow> w AND 1 = 0 \<and> asize \<le> ucast (w AND NOT 7)
      | Inl _ \<Rightarrow> False)"

text \<open>The search as the specification describes it, on the blocks \<open>post\<close> from the cursor to
  the epilogue \<open>e\<close> and the blocks \<open>pre\<close> before the cursor: the first fit from the cursor
  on, with the cursor left there; else the first fit among the blocks before the start
  position; else no fit.\<close>

definition next_fit :: "state \<Rightarrow> size_t \<Rightarrow> addr list \<Rightarrow> addr list \<Rightarrow> addr \<Rightarrow> addr \<times> state" where
  "next_fit s asize pre post e =
     (case find (fits s asize) post of
        Some b \<Rightarrow> (b, s\<lparr>rover := b\<rparr>)
      | None \<Rightarrow>
          (case find (fits s asize) pre of
             Some b \<Rightarrow> (b, s\<lparr>rover := e\<rparr>)
           | None \<Rightarrow> (NULL, s\<lparr>rover := e\<rparr>)))"

section \<open>The heap as a sequence of blocks\<close>

text \<open>A block list gives the size and the allocated flag of each block, in address order.
  \<open>blocks s p bs q\<close>: the blocks \<open>bs\<close> lie one after another from the payload pointer \<open>p\<close>
  on, each with matching header and footer inside the region, and the last one ends where
  a block with payload pointer \<open>q\<close> would start.\<close>

fun blocks :: "state \<Rightarrow> addr \<Rightarrow> (int \<times> bool) list \<Rightarrow> addr \<Rightarrow> bool" where
  "blocks s p [] q = (p = q)"
| "blocks s p ((n, a) # bs) q = (tagged s p n a \<and> blocks s (p + n) bs q)"

text \<open>The payload pointers of the blocks of a list that starts at \<open>p\<close>, and the number of
  bytes the list covers.\<close>

fun starts :: "addr \<Rightarrow> (int \<times> bool) list \<Rightarrow> addr list" where
  "starts p [] = []"
| "starts p ((n, a) # bs) = p # starts (p + n) bs"

definition span :: "(int \<times> bool) list \<Rightarrow> int" where
  "span bs = sum_list (map fst bs)"

text \<open>No two neighbours in the list are both free.\<close>

fun no_adj_free :: "(int \<times> bool) list \<Rightarrow> bool" where
  "no_adj_free ((n, a) # (m, b) # bs) = ((a \<or> b) \<and> no_adj_free ((m, b) # bs))"
| "no_adj_free _ = True"

text \<open>The layout of the heap: the region lies at positive addresses and has room for less
  than \<open>2^32\<close> bytes (a header holds the size in 32 bits); one padding word, the prologue
  block of 8 bytes at \<^verbatim>\<open>heap_listp\<close>, the blocks \<open>bs\<close>, and the epilogue header (size 0,
  allocated) in the last word before the break.\<close>

definition heap_lay :: "state \<Rightarrow> (int \<times> bool) list \<Rightarrow> bool" where
  "heap_lay s bs =
     (0 < mem_start_brk s \<and> heap_listp s = mem_start_brk s + 8 \<and>
      blocks s (mem_start_brk s + 8) ((8, True) # bs) (mem_brk s) \<and>
      load32 (mem s) (mem_brk s - 4) = tag 0 True \<and>
      mem_brk s \<le> mem_max_addr s \<and> mem_max_addr s - mem_start_brk s < 2 ^ 32)"

text \<open>The cursor points at the prologue, at one of the blocks, or at the epilogue.\<close>

definition rover_ok :: "state \<Rightarrow> (int \<times> bool) list \<Rightarrow> bool" where
  "rover_ok s bs =
     (rover s \<in> set (starts (mem_start_brk s + 8) ((8, True) # bs)) \<or> rover s = mem_brk s)"

text \<open>The heap invariant: the layout, no two adjacent free blocks, and the cursor at a
  block.\<close>

definition heap_ok :: "state \<Rightarrow> (int \<times> bool) list \<Rightarrow> bool" where
  "heap_ok s bs = (heap_lay s bs \<and> no_adj_free bs \<and> rover_ok s bs)"

text \<open>The allocated blocks of a list that starts at \<open>p\<close>: payload pointer and size.\<close>

fun lives :: "addr \<Rightarrow> (int \<times> bool) list \<Rightarrow> (addr \<times> int) set" where
  "lives p [] = {}"
| "lives p ((n, a) # bs) = (if a then {(p, n)} else {}) \<union> lives (p + n) bs"

section \<open>Callers that respect the interface\<close>

text \<open>
  The specification asks the caller to call \<^verbatim>\<open>mm_init\<close> once, before any other operation,
  and does not defend against pointers the allocator did not hand out. A call is
  \<open>permitted\<close>, for a caller that holds the pointers \<open>L\<close>, when it is not a second
  \<^verbatim>\<open>mm_init\<close>, when the pointer it frees or resizes is one the caller holds (or \<open>NULL\<close> for
  \<^verbatim>\<open>mm_free\<close>), and when the size it requests is at most \<open>2^31 - 16\<close>: then the size
  adjustment of \<^verbatim>\<open>mm_malloc\<close> does not wrap around, and the number of bytes that
  \<^verbatim>\<open>extend_heap\<close> asks of the provider is less than \<open>2^31\<close>, so it is the same number
  whether the provider takes it as a \<^verbatim>\<open>size_t\<close> or as an \<^verbatim>\<open>int\<close>. \<open>held c r L\<close> is what the
  caller holds after the call \<open>c\<close> has returned \<open>r\<close>: \<^verbatim>\<open>mm_realloc\<close> releases the old block
  only when it returns a new one.
\<close>

fun permitted :: "call \<Rightarrow> addr list \<Rightarrow> bool" where
  "permitted Init L = False"
| "permitted (Malloc n) L = (uint n \<le> 2 ^ 31 - 16)"
| "permitted (Free p) L = (p = NULL \<or> p \<in> set L)"
| "permitted (Realloc p n) L = (p \<in> set L \<and> uint n \<le> 2 ^ 31 - 16)"

fun held :: "call \<Rightarrow> int \<Rightarrow> addr list \<Rightarrow> addr list" where
  "held Init r L = L"
| "held (Malloc n) r L = (if r = NULL then L else r # L)"
| "held (Free p) r L = removeAll p L"
| "held (Realloc p n) r L = (if r = NULL then L else r # removeAll p L)"

text \<open>\<open>client_ok cs rs L\<close>: every call of \<open>cs\<close> is permitted when it is made, the calls having
  returned the values \<open>rs\<close>, for a caller that starts with the pointers \<open>L\<close>.\<close>

fun client_ok :: "call list \<Rightarrow> int list \<Rightarrow> addr list \<Rightarrow> bool" where
  "client_ok [] rs L = True"
| "client_ok (c # cs) [] L = False"
| "client_ok (c # cs) (r # rs) L = (permitted c L \<and> client_ok cs rs (held c r L))"

section \<open>Auxiliary notions for the proof of the heap invariant\<close>

text \<open>Writing the two tags of a block.\<close>

definition retag :: "(addr \<Rightarrow> byte) \<Rightarrow> addr \<Rightarrow> int \<Rightarrow> bool \<Rightarrow> (addr \<Rightarrow> byte)" where
  "retag m B N a = store32 (store32 m (B - 4) (tag N a)) (B + N - 8) (tag N a)"

text \<open>The layout around a free block \<open>bp\<close> of \<open>n\<close> bytes: the block before it has \<open>pn\<close> bytes
  and flag \<open>pa\<close>; the header after it carries size \<open>nn\<close> and flag \<open>na\<close> (the epilogue has
  size 0), and is followed by a whole block when it is free.\<close>

definition around :: "state \<Rightarrow> addr \<Rightarrow> int \<Rightarrow> bool \<Rightarrow> int \<Rightarrow> int \<Rightarrow> bool \<Rightarrow> bool" where
  "around s bp pn pa n nn na =
     (tagged s (bp - pn) pn pa \<and> tagged s bp n False \<and>
      load32 (mem s) (bp + n - 4) = tag nn na \<and> in_heap s (bp + n - 4) 4 \<and>
      0 \<le> nn \<and> nn mod 8 = 0 \<and> (\<not> na \<longrightarrow> tagged s (bp + n) nn False) \<and>
      pn + n + nn < 2 ^ 32)"

text \<open>The neighbours of a block in the list: the block before it (the prologue for the first
  block) and the header after it (the epilogue for the last block).\<close>

definition prevb :: "(int \<times> bool) list \<Rightarrow> int \<times> bool" where
  "prevb xs = (if xs = [] then (8, True) else last xs)"

definition nextb :: "(int \<times> bool) list \<Rightarrow> int \<times> bool" where
  "nextb ys = (if ys = [] then (0, True) else hd ys)"

section \<open>Properties\<close>

subsection \<open>Stability of the operations\<close>

lemma frame_preorder: "frame R \<Longrightarrow> preorder_rel R"
  by (simp add: frame_def)

lemma frame_refl: "frame R \<Longrightarrow> R s s"
  by (simp add: frame_def preorder_rel_def)

lemma frame_trans: "frame R \<Longrightarrow> R s t \<Longrightarrow> R t u \<Longrightarrow> R s u"
  unfolding frame_def preorder_rel_def by blast

lemma stable_ret: "preorder_rel R \<Longrightarrow> stable R (ret x)"
  by (simp add: stable_def ret_def preorder_rel_def)

lemma stable_gets: "preorder_rel R \<Longrightarrow> stable R (gets f)"
  by (simp add: stable_def gets_def preorder_rel_def)

lemma stable_assert: "preorder_rel R \<Longrightarrow> stable R (assert b)"
  by (simp add: stable_def assert_def preorder_rel_def)

lemma stable_bnd:
  assumes "preorder_rel R" "stable R m" "\<And>x. stable R (f x)"
  shows "stable R (bnd m f)"
  unfolding stable_def bnd_def
proof (intro allI impI)
  fix s r s'
  assume h: "(case m s of Inl e \<Rightarrow> Inl e | Inr (x, s') \<Rightarrow> f x s') = Inr (r, s')"
  then obtain x t where m: "m s = Inr (x, t)" and f: "f x t = Inr (r, s')"
    by (auto split: sum.splits)
  from m assms(2) have "R s t" by (simp add: stable_def)
  moreover from f assms(3) have "R t s'" by (simp add: stable_def)
  ultimately show "R s s'" using assms(1) unfolding preorder_rel_def by blast
qed

lemma stable_if: "stable R m \<Longrightarrow> stable R n \<Longrightarrow> stable R (if b then m else n)"
  by simp

lemma stable_GET: "preorder_rel R \<Longrightarrow> stable R (GET p)"
  by (simp add: stable_def GET_def preorder_rel_def)

lemma stable_GET64: "preorder_rel R \<Longrightarrow> stable R (GET64 p)"
  by (simp add: stable_def GET64_def preorder_rel_def)

lemmas stable_intros =
  stable_bnd stable_ret stable_gets stable_assert stable_if stable_GET stable_GET64

lemma stable_GET_SIZE: "preorder_rel R \<Longrightarrow> stable R (GET_SIZE p)"
  unfolding GET_SIZE_def by (intro stable_intros)

lemma stable_GET_ALLOC: "preorder_rel R \<Longrightarrow> stable R (GET_ALLOC p)"
  unfolding GET_ALLOC_def by (intro stable_intros)

lemma stable_FTRP: "preorder_rel R \<Longrightarrow> stable R (FTRP p)"
  unfolding FTRP_def by (intro stable_intros stable_GET_SIZE)

lemma stable_NEXT_BLKP: "preorder_rel R \<Longrightarrow> stable R (NEXT_BLKP p)"
  unfolding NEXT_BLKP_def by (intro stable_intros stable_GET_SIZE)

lemma stable_PREV_BLKP: "preorder_rel R \<Longrightarrow> stable R (PREV_BLKP p)"
  unfolding PREV_BLKP_def by (intro stable_intros stable_GET_SIZE)

lemmas stable_reads =
  stable_GET_SIZE stable_GET_ALLOC stable_FTRP stable_NEXT_BLKP stable_PREV_BLKP

lemma stable_PUT: "frame R \<Longrightarrow> stable R (PUT p v)"
  by (simp add: stable_def PUT_def frame_def split: if_splits)

lemma stable_memcpy: "frame R \<Longrightarrow> stable R (memcpy d src n)"
  by (auto simp: stable_def memcpy_def frame_def preorder_rel_def split: if_splits)

lemma stable_set_rover: "frame R \<Longrightarrow> stable R (modify (rover_update g))"
proof -
  have "rover_update g s = s\<lparr>rover := g (rover s)\<rparr>" for s :: state by simp
  then show "frame R \<Longrightarrow> ?thesis"
    unfolding stable_def modify_def frame_def by (metis Inr_inject prod.inject)
qed

lemma stable_rover_to_heap_listp:
  "frame R \<Longrightarrow> stable R (modify (\<lambda>s. s\<lparr>rover := heap_listp s\<rparr>))"
  unfolding stable_def modify_def frame_def by (metis Inr_inject prod.inject)

lemma stable_set_heap_listp: "frame R \<Longrightarrow> stable R (modify (heap_listp_update g))"
proof -
  have "heap_listp_update g s = s\<lparr>heap_listp := g (heap_listp s)\<rparr>" for s :: state by simp
  then show "frame R \<Longrightarrow> ?thesis"
    unfolding stable_def modify_def frame_def by (metis Inr_inject prod.inject)
qed

lemma stable_mem_sbrk: "frame R \<Longrightarrow> 0 \<le> n \<Longrightarrow> stable R (mem_sbrk n)"
  by (auto simp: stable_def mem_sbrk_def frame_def preorder_rel_def split: if_splits)

lemmas stable_writes = stable_PUT stable_memcpy stable_set_rover stable_set_heap_listp
  stable_rover_to_heap_listp

lemma stable_coalesce: "frame R \<Longrightarrow> stable R (coalesce bp)"
  unfolding coalesce_def Let_def
  by (intro stable_intros stable_reads stable_writes frame_preorder)

lemma stable_place: "frame R \<Longrightarrow> stable R (place bp asize)"
  unfolding place_def Let_def
  by (intro stable_intros stable_reads stable_writes frame_preorder)

lemma stable_extend_heap: "frame R \<Longrightarrow> stable R (extend_heap w)"
  unfolding extend_heap_def Let_def
  by (intro stable_intros stable_reads stable_writes stable_coalesce stable_mem_sbrk
        frame_preorder) simp_all

lemma stable_mm_free: "frame R \<Longrightarrow> stable R (mm_free bp)"
  unfolding mm_free_def Let_def
  by (intro stable_intros stable_reads stable_writes stable_coalesce frame_preorder)

lemma stable_mm_init: "frame R \<Longrightarrow> stable R mm_init"
  unfolding mm_init_def
  by (intro stable_intros stable_reads stable_writes stable_extend_heap stable_mem_sbrk
        frame_preorder) (simp_all add: WSIZE_def)

lemma ostable_lift: "stable R m \<Longrightarrow> ostable R (lift m)"
  by (simp add: stable_def ostable_def lift_def)

lemma ostable_obnd:
  assumes "preorder_rel R" "ostable R m" "\<And>x. ostable R (f x)"
  shows "ostable R (obnd m f)"
  unfolding ostable_def obnd_def
proof (intro allI impI)
  fix s r s'
  assume h: "(case m s of None \<Rightarrow> None | Some (Inl e) \<Rightarrow> Some (Inl e)
               | Some (Inr (x, s')) \<Rightarrow> f x s') = Some (Inr (r, s'))"
  then obtain x t where m: "m s = Some (Inr (x, t))" and f: "f x t = Some (Inr (r, s'))"
    by (auto split: option.splits sum.splits)
  from m assms(2) have "R s t" by (simp add: ostable_def)
  moreover from f assms(3) have "R t s'" by (simp add: ostable_def)
  ultimately show "R s s'" using assms(1) unfolding preorder_rel_def by blast
qed

lemma ostable_if: "ostable R m \<Longrightarrow> ostable R n \<Longrightarrow> ostable R (if b then m else n)"
  by simp

text \<open>The forward scan changes nothing but the cursor; the second scan changes nothing.\<close>

lemma find_fit_fwd_rel:
  assumes R: "preorder_rel R" and rv: "\<And>s nb. R s (s\<lparr>rover := nb\<rparr>)"
  shows "find_fit_fwd asize s = Some y \<Longrightarrow> \<forall>r s'. y = Inr (r, s') \<longrightarrow> R s s'"
proof (induction rule: find_fit_fwd.raw_induct[rotated 1, consumes 1])
  case (1 ff asize s y)
  from R have Rrefl: "\<And>s. R s s" and Rtrans: "\<And>s t u. R s t \<Longrightarrow> R t u \<Longrightarrow> R s u"
    unfolding preorder_rel_def by blast+
  show ?case
  proof (intro allI impI)
    fix r s' assume y: "y = Inr (r, s')"
    from 1(2) y have "s' = s \<or> (\<exists>nb. ff asize (s\<lparr>rover := nb\<rparr>) = Some (Inr (r, s')))"
      by (auto split: sum.splits if_splits)
    then show "R s s'"
    proof
      assume "s' = s" then show ?thesis by (simp add: Rrefl)
    next
      assume "\<exists>nb. ff asize (s\<lparr>rover := nb\<rparr>) = Some (Inr (r, s'))"
      then obtain nb where "ff asize (s\<lparr>rover := nb\<rparr>) = Some (Inr (r, s'))" ..
      from 1(1)[OF this] have "R (s\<lparr>rover := nb\<rparr>) s'" by simp
      with rv[of s nb] show ?thesis using Rtrans by blast
    qed
  qed
qed

lemma find_fit_wrap_same:
  "find_fit_wrap asize old bp s = Some y \<Longrightarrow> \<forall>r s'. y = Inr (r, s') \<longrightarrow> s' = s"
proof (induction rule: find_fit_wrap.raw_induct[rotated 1, consumes 1])
  case (1 ff asize old bp s y)
  show ?case
  proof (intro allI impI)
    fix r s' assume y: "y = Inr (r, s')"
    from 1(2) y have "s' = s \<or> (\<exists>nb. ff asize old nb s = Some (Inr (r, s')))"
      by (auto split: sum.splits if_splits)
    then show "s' = s"
    proof
      assume "s' = s" then show ?thesis .
    next
      assume "\<exists>nb. ff asize old nb s = Some (Inr (r, s'))"
      then obtain nb where "ff asize old nb s = Some (Inr (r, s'))" ..
      from 1(1)[OF this] show ?thesis by simp
    qed
  qed
qed

lemma find_fit_rel:
  assumes R: "preorder_rel R" and rv: "\<And>s nb. R s (s\<lparr>rover := nb\<rparr>)"
    and ff: "find_fit asize s = Some (Inr (r, s'))"
  shows "R s s'"
proof -
  from R have Rrefl: "\<And>s. R s s" unfolding preorder_rel_def by blast
  from ff obtain x t where 1: "find_fit_fwd asize s = Some (Inr (x, t))"
    and 2: "(case x of Some p \<Rightarrow> lift (ret p)
              | None \<Rightarrow> obnd (lift (gets heap_listp)) (find_fit_wrap asize (rover s))) t
            = Some (Inr (r, s'))"
    unfolding find_fit_def Let_def obnd_def
    by (auto split: option.splits sum.splits)
  from find_fit_fwd_rel[OF R rv 1] have st: "R s t" by simp
  from 2 have "s' = t"
    by (cases x) (auto simp: lift_def ret_def obnd_def gets_def dest: find_fit_wrap_same)
  with st show ?thesis by simp
qed

lemma ostable_find_fit: "frame R \<Longrightarrow> ostable R (find_fit asize)"
  unfolding ostable_def
  using find_fit_rel[of R] by (simp add: frame_def)

lemma ostable_mm_malloc: "frame R \<Longrightarrow> ostable R (mm_malloc n)"
  unfolding mm_malloc_def Let_def
  by (intro ostable_if ostable_lift ostable_obnd ostable_find_fit stable_intros stable_place
        stable_extend_heap frame_preorder)

lemma stable_realloc_copy: "frame R \<Longrightarrow> stable R (realloc_copy p n)"
  unfolding realloc_copy_def by (intro stable_intros frame_preorder)

lemma ostable_mm_realloc: "frame R \<Longrightarrow> ostable R (mm_realloc p n)"
  unfolding mm_realloc_def
  by (intro ostable_if ostable_lift ostable_obnd ostable_mm_malloc stable_intros
        stable_realloc_copy stable_memcpy stable_mm_free frame_preorder)

lemma ostable_exec: "frame R \<Longrightarrow> ostable R (exec c)"
  by (cases c)
     (simp_all add: ostable_lift stable_mm_init ostable_mm_malloc ostable_mm_realloc
        stable_bnd stable_mm_free stable_ret frame_preorder)

lemma run_calls_rel:
  "frame R \<Longrightarrow> run_calls cs s = Some (Inr (rs, s')) \<Longrightarrow> R s s'"
proof (induction cs arbitrary: s rs)
  case Nil
  then show ?case by (simp add: frame_refl)
next
  case (Cons c cs)
  from Cons.prems(2) obtain r t rs' where 1: "exec c s = Some (Inr (r, t))"
    and 2: "run_calls cs t = Some (Inr (rs', s'))"
    by (auto split: option.splits sum.splits)
  from 1 ostable_exec[OF Cons.prems(1), of c] have "R s t" by (simp add: ostable_def)
  moreover from Cons.IH[OF Cons.prems(1) 2] have "R t s'" .
  ultimately show ?case using frame_trans[OF Cons.prems(1)] by blast
qed

lemma frame_untouched: "frame untouched"
  by (simp add: frame_def preorder_rel_def untouched_def)

lemma run_calls_untouched:
  "run_calls cs s = Some (Inr (rs, s')) \<Longrightarrow> untouched s s'"
  by (rule run_calls_rel[OF frame_untouched])

subsection \<open>Evaluation on concrete heaps\<close>

lemmas monad_defs = bnd_def ret_def gets_def modify_def assert_def lift_def obnd_def

lemmas access_defs = in_heap_def GET_def PUT_def GET64_def mem_sbrk_def memcpy_def
  load32_def store32_def load64_def mem_heap_lo_def mem_heap_hi_def

lemmas macro_defs = GET_SIZE_def GET_ALLOC_def HDRP_def FTRP_def NEXT_BLKP_def PREV_BLKP_def
  WSIZE_def DSIZE_def CHUNKSIZE_def PACK_def ALIGN_def SIZE_T_SIZE_def

lemmas op_defs = mm_init_def extend_heap_def coalesce_def place_def mm_malloc_def mm_free_def
  mm_realloc_def find_fit_def find_fit_fwd.simps find_fit_wrap.simps adjust_size_def
  realloc_copy_def

lemmas eval_defs = op_defs macro_defs access_defs monad_defs fresh_def demo_def
  observe_def free_pair_def adjacent_free_at_def

subsection \<open>Words, tags and memory\<close>

lemma low3: "8 dvd (n::int) \<Longrightarrow> bit n i \<Longrightarrow> 3 \<le> i"
proof (rule ccontr)
  assume n: "8 dvd n" and b: "bit n i" and "\<not> 3 \<le> i"
  then have "i = 0 \<or> i = 1 \<or> i = 2" by arith
  then show False using n b by (auto simp: bit_iff_odd)
qed

lemma bit7: "bit (7 :: int) i \<longleftrightarrow> i < 3"
proof -
  have "bit (mask 3 :: int) i \<longleftrightarrow> i < 3" by (simp only: bit_mask_iff) simp
  then show ?thesis by (simp add: mask_eq_exp_minus_1)
qed

text \<open>The simplifier writes the mask \<open>NOT 7\<close> as \<open>- 8\<close>.\<close>

lemma tag_size: "8 dvd n \<Longrightarrow> tag n a AND - 8 = word_of_int n"
  unfolding tag_def
  apply (rule bit_word_eqI)
  apply (auto simp: bit_simps bit7 bit_1_iff dest: low3)
  done

lemma tag_alloc: "8 dvd n \<Longrightarrow> tag n a AND 1 = (if a then 1 else 0)"
  unfolding tag_def
  apply (rule bit_word_eqI)
  apply (auto simp: bit_simps bit7 bit_1_iff dest: low3)
  done

lemma ucast_pack1: "ucast (PACK x 1) = tag (uint x) True"
  unfolding tag_def PACK_def
  apply (rule bit_word_eqI)
  apply (auto simp: bit_simps bit_1_iff)
  done

lemma ucast_pack0: "ucast (PACK x 0) = tag (uint x) False"
  unfolding tag_def PACK_def
  apply (rule bit_word_eqI)
  apply (auto simp: bit_simps bit_1_iff)
  done

lemma ucast_wi_32_64:
  "0 \<le> c \<Longrightarrow> c < 2 ^ 32 \<Longrightarrow> (ucast (word_of_int c :: uint) :: size_t) = word_of_int c"
  by (simp add: ucast_eq uint_word_of_int take_bit_int_eq_self)

lemma uint_wi_64: "0 \<le> c \<Longrightarrow> c < 2 ^ 64 \<Longrightarrow> uint (word_of_int c :: size_t) = c"
  by (simp add: uint_word_of_int take_bit_int_eq_self)

lemma uint_wi_32: "0 \<le> c \<Longrightarrow> c < 2 ^ 32 \<Longrightarrow> uint (word_of_int c :: uint) = c"
  by (simp add: uint_word_of_int take_bit_int_eq_self)

lemma le_wi_64:
  "0 \<le> c \<Longrightarrow> c < 2 ^ 64 \<Longrightarrow> 0 \<le> d \<Longrightarrow> d < 2 ^ 64 \<Longrightarrow>
   ((word_of_int d :: size_t) \<le> word_of_int c) = (d \<le> c)"
  by (simp add: word_le_def uint_wi_64)

lemma load_store_same: "load32 (store32 m a v) a = v"
  unfolding load32_def store32_def
  apply (rule bit_word_eqI)
  apply (auto simp: bit_simps)
  subgoal for n by (cases "24 \<le> n") auto
  done

lemma load_store_other:
  "b + 4 \<le> a \<or> a + 4 \<le> b \<Longrightarrow> load32 (store32 m a v) b = load32 m b"
  unfolding load32_def store32_def by auto

lemma store32_other: "x < a \<or> a + 4 \<le> x \<Longrightarrow> store32 m a v x = m x"
  by (auto simp: store32_def)

subsection \<open>Running the monad step by step\<close>

lemma bnd_GET: "bnd (GET p) f s = (if in_heap s p 4 then f (load32 (mem s) p) s else Inl Fault)"
  by (simp add: bnd_def GET_def)

lemma bnd_PUT: "bnd (PUT p v) f s =
   (if in_heap s p 4 then f () (s\<lparr>mem := store32 (mem s) p (ucast v)\<rparr>) else Inl Fault)"
  by (simp add: bnd_def PUT_def)

lemma PUT_app: "PUT p v s =
   (if in_heap s p 4 then Inr ((), s\<lparr>mem := store32 (mem s) p (ucast v)\<rparr>) else Inl Fault)"
  by (simp add: PUT_def)

lemma GET_app: "GET p s = (if in_heap s p 4 then Inr (load32 (mem s) p, s) else Inl Fault)"
  by (simp add: GET_def)

lemma ret_app: "ret x s = Inr (x, s)"
  by (simp add: ret_def)

lemma bnd_ret: "bnd (ret x) f s = f x s"
  by (simp add: bnd_def ret_def)

lemma bnd_gets: "bnd (gets g) f s = f (g s) s"
  by (simp add: bnd_def gets_def)

lemma bnd_modify: "bnd (modify g) f s = f () (g s)"
  by (simp add: bnd_def modify_def)

lemma bnd_assoc: "bnd (bnd m f) g = bnd m (\<lambda>x. bnd (f x) g)"
  by (auto simp: bnd_def fun_eq_iff split: sum.splits)

lemma bnd_Inr: "m s = Inr (x, t) \<Longrightarrow> bnd m f s = f x t"
  by (simp add: bnd_def)

lemma bnd_eq_Inr:
  "bnd m f s = Inr (r, s') \<longleftrightarrow> (\<exists>x t. m s = Inr (x, t) \<and> f x t = Inr (r, s'))"
  by (auto simp: bnd_def split: sum.splits)

lemma in_heap_mem: "in_heap (s\<lparr>mem := m\<rparr>) p n = in_heap s p n"
  by (simp add: in_heap_def)

lemma in_heap_rover: "in_heap (s\<lparr>rover := r\<rparr>) p n = in_heap s p n"
  by (simp add: in_heap_def)

lemmas sym_defs = GET_SIZE_def GET_ALLOC_def HDRP_def FTRP_def NEXT_BLKP_def PREV_BLKP_def
  WSIZE_def DSIZE_def

lemmas run_simps = bnd_assoc bnd_GET bnd_PUT bnd_ret bnd_gets bnd_modify PUT_app GET_app ret_app
  in_heap_mem in_heap_rover

subsection \<open>Placement (C5)\<close>

lemma place_effect:
  assumes blk: "tagged s bp c False"
    and a8: "8 \<le> uint asize" "uint asize mod 8 = 0" and ac: "uint asize \<le> c"
  shows "\<exists>m'. place bp asize s = Inr ((), s\<lparr>mem := m'\<rparr>) \<and>
           (\<forall>x. x < bp - 4 \<or> bp + c - 4 \<le> x \<longrightarrow> m' x = mem s x) \<and>
           (if 16 \<le> c - uint asize
            then tagged (s\<lparr>mem := m'\<rparr>) bp (uint asize) True \<and>
                 tagged (s\<lparr>mem := m'\<rparr>) (bp + uint asize) (c - uint asize) False
            else tagged (s\<lparr>mem := m'\<rparr>) bp c True)"
proof -
  define a where "a = uint asize"
  have asz: "asize = word_of_int a" by (simp add: a_def)
  from blk have c: "8 \<le> c" "c < 2 ^ 32" "c mod 8 = 0" "8 dvd c"
    and ih: "mem_start_brk s \<le> bp - 4" "bp - 4 + c \<le> mem_brk s"
    and h: "load32 (mem s) (bp - 4) = tag c False"
    and f: "load32 (mem s) (bp + c - 8) = tag c False"
    by (simp_all add: tagged_def in_heap_def mod_eq_0_iff_dvd)
  from a8 ac have a: "8 \<le> a" "a mod 8 = 0" "a \<le> c" "8 dvd a" "0 \<le> a" "a < 2 ^ 32"
      "a < 2 ^ 64"
    using c by (simp_all add: a_def mod_eq_0_iff_dvd)
  have ca: "0 \<le> c - a" "c - a < 2 ^ 64" "c - a < 2 ^ 32" "8 dvd (c - a)"
    using a c by simp_all
  have cmp: "((16 :: size_t) \<le> word_of_int c - word_of_int a) = (16 \<le> c - a)"
    using le_wi_64[of "c - a" 16] ca by simp
  have ud: "uint (word_of_int c - word_of_int a :: size_t) = c - a"
    using uint_wi_64[of "c - a"] ca by simp
  have ud32: "uint (word_of_int c - word_of_int a :: uint) = c - a"
    using uint_wi_32[of "c - a"] ca by simp
  show ?thesis
  proof (cases "16 \<le> c - a")
    case True
    let ?m = "store32 (store32 (store32 (store32 (mem s) (bp - 4) (tag a True))
                (bp + a - 8) (tag a True)) (bp + a - 4) (tag (c - a) False))
                (bp + c - 8) (tag (c - a) False)"
    show ?thesis
      unfolding a_def[symmetric] asz
      apply (rule exI[of _ ?m])
      using True a c ca ih
      apply (simp add: place_def sym_defs run_simps Let_def h f
         load_store_same load_store_other in_heap_def tag_size ucast_wi_32_64 cmp
         ucast_pack1 ucast_pack0 uint_wi_64 uint_wi_32 tagged_def ud ud32 store32_other)
      done
  next
    case False
    let ?m = "store32 (store32 (mem s) (bp - 4) (tag c True)) (bp + c - 8) (tag c True)"
    show ?thesis
      unfolding a_def[symmetric] asz
      apply (rule exI[of _ ?m])
      using False a c ca ih
      apply (simp add: place_def sym_defs run_simps Let_def h f
         load_store_same load_store_other in_heap_def tag_size ucast_wi_32_64 cmp
         ucast_pack1 ucast_pack0 uint_wi_64 uint_wi_32 tagged_def ud ud32 store32_other)
      done
  qed
qed

text \<open>
  C5 (amended): placing a request of \<open>asize\<close> bytes (a multiple of 8, at least 8) into a
  free block of \<open>c \<ge> asize\<close> bytes returns; the block is split into an allocated block
  of \<open>asize\<close> bytes followed by a free block of \<open>c - asize\<close> bytes exactly when
  \<open>c - asize \<ge> 16\<close>, that is one minimum block size (\<^verbatim>\<open>2 * DSIZE\<close>); otherwise the whole
  block is marked allocated. No byte outside the block changes.
\<close>

theorem place_splits_at_16:
  assumes "tagged s bp c False"
    and "8 \<le> uint asize" and "uint asize mod 8 = 0" and "uint asize \<le> c"
  shows "\<exists>m'. place bp asize s = Inr ((), s\<lparr>mem := m'\<rparr>) \<and>
           (\<forall>x. x < bp - 4 \<or> bp + c - 4 \<le> x \<longrightarrow> m' x = mem s x) \<and>
           (if 16 \<le> c - uint asize
            then tagged (s\<lparr>mem := m'\<rparr>) bp (uint asize) True \<and>
                 tagged (s\<lparr>mem := m'\<rparr>) (bp + uint asize) (c - uint asize) False
            else tagged (s\<lparr>mem := m'\<rparr>) bp c True)"
  using assms by (rule place_effect)

subsection \<open>Reads, and the stages of coalescing\<close>

lemma coalesce_stages:
  "coalesce bp0 =
     bnd (PREV_BLKP bp0) (\<lambda>pb. bnd (FTRP pb) (\<lambda>pf. bnd (GET_ALLOC pf) (\<lambda>prev_alloc.
     bnd (NEXT_BLKP bp0) (\<lambda>nb. bnd (GET_ALLOC (HDRP nb)) (\<lambda>next_alloc.
     bnd (GET_SIZE (HDRP bp0)) (\<lambda>sz.
     if prev_alloc \<noteq> 0 \<and> next_alloc \<noteq> 0 then ret bp0
     else bnd (coalesce_merge bp0 prev_alloc next_alloc (ucast sz)) fix_rover))))))"
  unfolding coalesce_def coalesce_merge_def fix_rover_def Let_def by (rule refl)

lemma preorder_only_rover: "preorder_rel only_rover"
  unfolding preorder_rel_def only_rover_def
  apply (intro conjI allI impI)
   apply simp
  apply (metis state.surjective state.update_convs(6))
  done

lemma preorder_only_mem: "preorder_rel only_mem"
  unfolding preorder_rel_def only_mem_def
  apply (intro conjI allI impI)
   apply simp
  apply (metis state.surjective state.update_convs(1))
  done

text \<open>What a read that returns tells.\<close>

lemma GET_Inr: "GET p s = Inr (x, t) \<Longrightarrow> t = s \<and> in_heap s p 4 \<and> x = load32 (mem s) p"
  by (auto simp: GET_def split: if_splits)

lemma GET_SIZE_Inr:
  "GET_SIZE p s = Inr (x, t) \<Longrightarrow> t = s \<and> in_heap s p 4 \<and> x = load32 (mem s) p AND NOT 7"
  by (auto simp: GET_SIZE_def bnd_eq_Inr ret_def dest!: GET_Inr)

lemma GET_ALLOC_Inr:
  "GET_ALLOC p s = Inr (x, t) \<Longrightarrow> t = s \<and> in_heap s p 4 \<and> x = load32 (mem s) p AND 1"
  by (auto simp: GET_ALLOC_def bnd_eq_Inr ret_def dest!: GET_Inr)

lemma FTRP_Inr:
  "FTRP bp s = Inr (x, t) \<Longrightarrow> t = s \<and> in_heap s (bp - 4) 4 \<and>
     x = bp + uint (load32 (mem s) (bp - 4) AND NOT 7) - 8"
  by (auto simp: FTRP_def HDRP_def WSIZE_def DSIZE_def bnd_eq_Inr ret_def dest!: GET_SIZE_Inr)

lemma NEXT_BLKP_Inr:
  "NEXT_BLKP bp s = Inr (x, t) \<Longrightarrow> t = s \<and> in_heap s (bp - 4) 4 \<and>
     x = bp + uint (load32 (mem s) (bp - 4) AND NOT 7)"
  by (auto simp: NEXT_BLKP_def WSIZE_def bnd_eq_Inr ret_def dest!: GET_SIZE_Inr)

lemma PREV_BLKP_Inr:
  "PREV_BLKP bp s = Inr (x, t) \<Longrightarrow> t = s \<and> in_heap s (bp - 8) 4 \<and>
     x = bp - uint (load32 (mem s) (bp - 8) AND NOT 7)"
  by (auto simp: PREV_BLKP_def DSIZE_def bnd_eq_Inr ret_def dest!: GET_SIZE_Inr)

lemma stable_PUT_mem: "(\<And>s m. R s (s\<lparr>mem := m\<rparr>)) \<Longrightarrow> stable R (PUT p v)"
  by (simp add: stable_def PUT_def split: if_splits)

lemma only_mem_mem: "only_mem s (s\<lparr>mem := m\<rparr>)"
  by (simp add: only_mem_def)

lemma stable_coalesce_merge: "stable only_mem (coalesce_merge bp pa na sz)"
  unfolding coalesce_merge_def Let_def
  by (intro stable_intros stable_reads stable_PUT_mem preorder_only_mem only_mem_mem)

lemma bnd_readE:
  assumes "bnd m f s = Inr (r, s')" and "\<And>x t. m s = Inr (x, t) \<Longrightarrow> t = s"
  obtains x where "m s = Inr (x, s)" and "f x s = Inr (r, s')"
  using assms by (auto simp: bnd_eq_Inr)

lemmas read_same = GET_Inr[THEN conjunct1] GET_SIZE_Inr[THEN conjunct1]
  GET_ALLOC_Inr[THEN conjunct1] FTRP_Inr[THEN conjunct1] NEXT_BLKP_Inr[THEN conjunct1]
  PREV_BLKP_Inr[THEN conjunct1]

lemma fix_rover_Inr:
  assumes "fix_rover b s = Inr (r, s')"
  shows "r = b \<and> in_heap s (b - 4) 4 \<and> only_rover s s' \<and>
     (\<exists>nx. NEXT_BLKP b s = Inr (nx, s) \<and>
        rover s' = (if b < rover s \<and> rover s < nx then b else rover s))"
proof -
  from assms have "bnd (NEXT_BLKP b) (\<lambda>nx.
       if rover s < nx \<and> rover s > b then bnd (modify (rover_update (\<lambda>_. b))) (\<lambda>_. ret b)
       else ret b) s = Inr (r, s')"
    by (simp add: fix_rover_def bnd_gets)
  then obtain nx where n: "NEXT_BLKP b s = Inr (nx, s)"
    and r: "(if rover s < nx \<and> rover s > b then bnd (modify (rover_update (\<lambda>_. b))) (\<lambda>_. ret b)
       else ret b) s = Inr (r, s')"
    by (rule bnd_readE) (rule read_same)
  from n have ih: "in_heap s (b - 4) 4" by (auto dest: NEXT_BLKP_Inr)
  show ?thesis
  proof (cases "rover s < nx \<and> rover s > b")
    case True
    with r have "r = b" "s' = s\<lparr>rover := b\<rparr>" by (auto simp: bnd_modify ret_app)
    with True n ih show ?thesis by (auto simp: only_rover_def)
  next
    case False
    with r have "r = b" "s' = s" by (simp_all add: ret_app)
    with False n ih show ?thesis by (auto simp: only_rover_def)
  qed
qed

lemma coalesce_Inr:
  assumes "coalesce bp0 s = Inr (r, s')"
  shows "(s' = s \<and> r = bp0 \<and> in_heap s (bp0 - 4) 4) \<or>
         (\<exists>pa na sz t. coalesce_merge bp0 pa na sz s = Inr (r, t) \<and> fix_rover r t = Inr (r, s'))"
proof -
  note c = assms[unfolded coalesce_stages]
  from c obtain pb where c: "bnd (FTRP pb) (\<lambda>pf. bnd (GET_ALLOC pf) (\<lambda>prev_alloc.
     bnd (NEXT_BLKP bp0) (\<lambda>nb. bnd (GET_ALLOC (HDRP nb)) (\<lambda>next_alloc.
     bnd (GET_SIZE (HDRP bp0)) (\<lambda>sz.
     if prev_alloc \<noteq> 0 \<and> next_alloc \<noteq> 0 then ret bp0
     else bnd (coalesce_merge bp0 prev_alloc next_alloc (ucast sz)) fix_rover))))) s = Inr (r, s')"
    by (rule bnd_readE) (rule read_same)
  from c obtain pf where c: "bnd (GET_ALLOC pf) (\<lambda>prev_alloc.
     bnd (NEXT_BLKP bp0) (\<lambda>nb. bnd (GET_ALLOC (HDRP nb)) (\<lambda>next_alloc.
     bnd (GET_SIZE (HDRP bp0)) (\<lambda>sz.
     if prev_alloc \<noteq> 0 \<and> next_alloc \<noteq> 0 then ret bp0
     else bnd (coalesce_merge bp0 prev_alloc next_alloc (ucast sz)) fix_rover)))) s = Inr (r, s')"
    by (rule bnd_readE) (rule read_same)
  from c obtain pa where c: "
     bnd (NEXT_BLKP bp0) (\<lambda>nb. bnd (GET_ALLOC (HDRP nb)) (\<lambda>next_alloc.
     bnd (GET_SIZE (HDRP bp0)) (\<lambda>sz.
     if pa \<noteq> 0 \<and> next_alloc \<noteq> 0 then ret bp0
     else bnd (coalesce_merge bp0 pa next_alloc (ucast sz)) fix_rover))) s = Inr (r, s')"
    by (rule bnd_readE) (rule read_same)
  from c obtain nb where c: "bnd (GET_ALLOC (HDRP nb)) (\<lambda>next_alloc.
     bnd (GET_SIZE (HDRP bp0)) (\<lambda>sz.
     if pa \<noteq> 0 \<and> next_alloc \<noteq> 0 then ret bp0
     else bnd (coalesce_merge bp0 pa next_alloc (ucast sz)) fix_rover)) s = Inr (r, s')"
    by (rule bnd_readE) (rule read_same)
  from c obtain na where c: "
     bnd (GET_SIZE (HDRP bp0)) (\<lambda>sz.
     if pa \<noteq> 0 \<and> na \<noteq> 0 then ret bp0
     else bnd (coalesce_merge bp0 pa na (ucast sz)) fix_rover) s = Inr (r, s')"
    by (rule bnd_readE) (rule read_same)
  from c obtain sz where sz: "GET_SIZE (HDRP bp0) s = Inr (sz, s)" and c: "
     (if pa \<noteq> 0 \<and> na \<noteq> 0 then ret bp0
     else bnd (coalesce_merge bp0 pa na (ucast sz)) fix_rover) s = Inr (r, s')"
    by (rule bnd_readE) (rule read_same)
  from sz have ih: "in_heap s (bp0 - 4) 4"
    by (auto dest: GET_SIZE_Inr simp: HDRP_def WSIZE_def)
  show ?thesis
  proof (cases "pa \<noteq> 0 \<and> na \<noteq> 0")
    case True
    with c ih show ?thesis by (simp add: ret_app)
  next
    case False
    with c obtain b t where m: "coalesce_merge bp0 pa na (ucast sz) s = Inr (b, t)"
      and f: "fix_rover b t = Inr (r, s')"
      by (auto simp: bnd_eq_Inr)
    from fix_rover_Inr[OF f] have "r = b" by simp
    with m f show ?thesis by blast
  qed
qed

lemma frame_same_start: "frame same_start"
  by (simp add: frame_def preorder_rel_def same_start_def)

lemma coalesce_result_in_heap:
  assumes "coalesce bp0 s = Inr (r, s')"
  shows "in_heap s' (r - 4) 4"
  using coalesce_Inr[OF assms]
proof
  assume "s' = s \<and> r = bp0 \<and> in_heap s (bp0 - 4) 4"
  then show ?thesis by simp
next
  assume "\<exists>pa na sz t. coalesce_merge bp0 pa na sz s = Inr (r, t) \<and> fix_rover r t = Inr (r, s')"
  then obtain pa na sz t where f: "fix_rover r t = Inr (r, s')" by blast
  from fix_rover_Inr[OF f] have "in_heap t (r - 4) 4" and "only_rover t s'" by simp_all
  then show ?thesis by (metis in_heap_rover only_rover_def)
qed

lemma extend_heap_Inr:
  assumes "extend_heap w s = Inr (r, s')" and brk: "mem_brk s \<noteq> - 1"
  shows "(r = NULL \<and> s' = s) \<or> in_heap s' (r - 4) 4"
proof -
  define n where "n = uint (if w mod 2 \<noteq> 0 then (w + 1) * 4 else w * 4)"
  from assms obtain bp t where sb: "mem_sbrk n s = Inr (bp, t)"
    and rest: "(if bp = - 1 then ret NULL
      else bnd (PUT (HDRP bp) (PACK (if w mod 2 \<noteq> 0 then (w + 1) * 4 else w * 4) 0)) (\<lambda>_.
           bnd (FTRP bp) (\<lambda>f. bnd (PUT f (PACK (if w mod 2 \<noteq> 0 then (w + 1) * 4 else w * 4) 0)) (\<lambda>_.
           bnd (NEXT_BLKP bp) (\<lambda>nb. bnd (PUT (HDRP nb) (PACK 0 1)) (\<lambda>_.
           coalesce bp)))))) t = Inr (r, s')"
    unfolding extend_heap_def Let_def n_def by (auto simp: bnd_eq_Inr)
  show ?thesis
  proof (cases "bp = - 1")
    case True
    with sb brk have "t = s" by (auto simp: mem_sbrk_def split: if_splits)
    with True rest show ?thesis by (simp add: ret_app)
  next
    case False
    with rest obtain u where "coalesce bp u = Inr (r, s')"
      by (auto simp: bnd_eq_Inr)
    then show ?thesis by (simp add: coalesce_result_in_heap)
  qed
qed

lemma extend_heap_null:
  assumes pos: "0 < mem_start_brk s" and brk: "0 \<le> mem_brk s"
    and e: "extend_heap w s = Inr (NULL, s')"
  shows "s' = s"
proof -
  from stable_extend_heap[OF frame_same_start, of w] e
  have "mem_start_brk s' = mem_start_brk s" by (simp add: stable_def same_start_def)
  moreover from brk have "mem_brk s \<noteq> - 1" by simp
  ultimately show ?thesis using extend_heap_Inr[OF e] pos by (auto simp: in_heap_def)
qed

lemma find_fit_only_rover: "find_fit asize s = Some (Inr (r, t)) \<Longrightarrow> only_rover s t"
  by (rule find_fit_rel[OF preorder_only_rover]) (simp_all add: only_rover_def)

lemma mm_malloc_null:
  assumes pos: "0 < mem_start_brk s" and brk: "0 \<le> mem_brk s"
    and m: "mm_malloc sz s = Some (Inr (NULL, s'))"
  shows "only_rover s s'"
proof (cases "sz = 0")
  case True
  with m show ?thesis by (simp add: mm_malloc_def lift_def ret_def only_rover_def)
next
  case False
  with m obtain bp t where ff: "find_fit (adjust_size sz) s = Some (Inr (bp, t))"
    and rest: "(if bp \<noteq> NULL then lift (bnd (place bp (adjust_size sz)) (\<lambda>_. ret bp))
          else lift (bnd (extend_heap (max (adjust_size sz) CHUNKSIZE div 4)) (\<lambda>bp.
              if bp = NULL then ret NULL
              else bnd (place bp (adjust_size sz)) (\<lambda>_. ret bp)))) t = Some (Inr (NULL, s'))"
    unfolding mm_malloc_def Let_def obnd_def by (auto split: option.splits sum.splits)
  from find_fit_only_rover[OF ff] have st: "only_rover s t" .
  then have "mem_start_brk t = mem_start_brk s" "mem_brk t = mem_brk s"
    unfolding only_rover_def by (metis state.select_convs(2,3) state.surjective state.update_convs(6))+
  with pos brk have post: "0 < mem_start_brk t" "0 \<le> mem_brk t" by simp_all
  have "bp = NULL" using rest by (auto simp: lift_def bnd_eq_Inr ret_def split: if_splits)
  with rest obtain b u where e: "extend_heap (max (adjust_size sz) CHUNKSIZE div 4) t = Inr (b, u)"
    and r2: "(if b = NULL then ret NULL else bnd (place b (adjust_size sz)) (\<lambda>_. ret b)) u
       = Inr (NULL, s')"
    by (auto simp: lift_def bnd_eq_Inr)
  from r2 have "b = NULL" "u = s'" by (auto simp: bnd_eq_Inr ret_def split: if_splits)
  with e extend_heap_null[OF post] have "s' = t" by simp
  with st show ?thesis by simp
qed

lemma realloc_failure:
  assumes pos: "0 < mem_start_brk s" and brk: "0 \<le> mem_brk s"
    and m: "mm_malloc sz s = Some (Inr (NULL, s'))"
  shows "mm_realloc p sz s = Some (Inr (NULL, s')) \<and> s' = s\<lparr>rover := rover s'\<rparr>"
  using m mm_malloc_null[OF pos brk m]
  by (simp add: mm_realloc_def obnd_def lift_def ret_def only_rover_def)


subsection \<open>The cursor stays on a header inside the region\<close>



































lemma NEXT_BLKP_rover:
  "NEXT_BLKP b t = Inr (nx, t) \<Longrightarrow> NEXT_BLKP b (t\<lparr>rover := x\<rparr>) = Inr (nx, t\<lparr>rover := x\<rparr>)"
  by (auto simp: NEXT_BLKP_def GET_SIZE_def GET_def bnd_def ret_def in_heap_def split: if_splits)

lemma coalesce_cursor:
  assumes c: "coalesce bp s = Inr (r, s')"
  shows "(s' = s \<and> r = bp) \<or>
         (\<exists>nx. NEXT_BLKP r s' = Inr (nx, s') \<and>
               rover s' = (if r < rover s \<and> rover s < nx then r else rover s))"
  using coalesce_Inr[OF c]
proof
  assume "s' = s \<and> r = bp \<and> in_heap s (bp - 4) 4"
  then show ?thesis by simp
next
  assume "\<exists>pa na sz t. coalesce_merge bp pa na sz s = Inr (r, t) \<and> fix_rover r t = Inr (r, s')"
  then obtain pa na sz t where m: "coalesce_merge bp pa na sz s = Inr (r, t)"
    and f: "fix_rover r t = Inr (r, s')" by blast
  from m stable_coalesce_merge have "only_mem s t" by (simp add: stable_def)
  then obtain mm where t: "t = s\<lparr>mem := mm\<rparr>" by (auto simp: only_mem_def)
  then have rt: "rover t = rover s" by simp
  from fix_rover_Inr[OF f] obtain nx where n: "NEXT_BLKP r t = Inr (nx, t)"
    and rv: "rover s' = (if r < rover t \<and> rover t < nx then r else rover t)"
    and o: "only_rover t s'" by blast
  from o NEXT_BLKP_rover[OF n, of "rover s'"] have "NEXT_BLKP r s' = Inr (nx, s')"
    by (simp add: only_rover_def)
  with rv rt show ?thesis by auto
qed


subsection \<open>The search (C6)\<close>

lemma GET_rover: "GET p (s\<lparr>rover := r\<rparr>) =
   (case GET p s of Inr (w, _) \<Rightarrow> Inr (w, s\<lparr>rover := r\<rparr>) | Inl e \<Rightarrow> Inl e)"
  by (simp add: GET_def in_heap_def)

lemma NEXT_BLKP_rover_eq: "NEXT_BLKP p (s\<lparr>rover := r\<rparr>) =
   (case NEXT_BLKP p s of Inr (w, _) \<Rightarrow> Inr (w, s\<lparr>rover := r\<rparr>) | Inl e \<Rightarrow> Inl e)"
  by (simp add: NEXT_BLKP_def GET_SIZE_def bnd_def ret_def GET_def in_heap_def)

lemma chain_rover: "chain (s\<lparr>rover := r\<rparr>) p bs q = chain s p bs q"
  by (induction bs arbitrary: p) (auto simp: NEXT_BLKP_rover_eq split: sum.splits)

lemma fits_rover: "fits (s\<lparr>rover := r\<rparr>) asize b = fits s asize b"
  by (simp add: fits_def GET_rover split: sum.splits)

lemma NEXT_BLKP_ge: "NEXT_BLKP p s = Inr (nb, t) \<Longrightarrow> p \<le> nb"
  by (auto dest!: NEXT_BLKP_Inr)

lemma chain_less: "chain s p bs q \<Longrightarrow> p \<le> q \<and> (bs \<noteq> [] \<longrightarrow> p < q)"
proof (induction bs arbitrary: p)
  case Nil
  then show ?case by simp
next
  case (Cons b bs)
  then obtain nb t where n: "NEXT_BLKP p s = Inr (nb, t)" and ne: "nb \<noteq> p"
    and c: "chain s nb bs q" by (auto split: sum.splits)
  from NEXT_BLKP_ge[OF n] ne have "p < nb" by simp
  with Cons.IH[OF c] show ?case by simp
qed

text \<open>What the three reads of one loop iteration return on a block of the chain.\<close>

lemma block_reads:
  assumes "NEXT_BLKP p s = Inr (nb, t)"
  shows "GET_SIZE (HDRP p) s = Inr (load32 (mem s) (p - 4) AND NOT 7, s)"
    and "GET_ALLOC (HDRP p) s = Inr (load32 (mem s) (p - 4) AND 1, s)"
    and "GET (HDRP p) s = Inr (load32 (mem s) (p - 4), s)"
    and "nb = p + uint (load32 (mem s) (p - 4) AND NOT 7)" and "t = s"
  using NEXT_BLKP_Inr[OF assms]
  by (simp_all add: GET_SIZE_def GET_ALLOC_def HDRP_def WSIZE_def bnd_def GET_def ret_def)

lemma find_fit_fwd_chain:
  "chain t (rover t) post e \<Longrightarrow> GET_SIZE (HDRP e) t = Inr (0, t) \<Longrightarrow>
   find_fit_fwd asize t = Some (Inr (case find (fits t asize) post of
       Some b \<Rightarrow> (Some b, t\<lparr>rover := b\<rparr>) | None \<Rightarrow> (None, t\<lparr>rover := e\<rparr>)))"
proof (induction post arbitrary: t)
  case Nil
  then have "rover t = e" by simp
  with Nil.prems(2) show ?case
    by (subst find_fit_fwd.simps) simp
next
  case (Cons b bs)
  from Cons.prems(1) obtain nb u where b: "b = rover t" and n: "NEXT_BLKP (rover t) t = Inr (nb, u)"
    and ne: "nb \<noteq> rover t" and c: "chain t nb bs e" by (auto split: sum.splits)
  note rd = block_reads[OF n]
  from ne rd(4) have nz: "load32 (mem t) (rover t - 4) AND NOT 7 \<noteq> 0" by auto
  have fb: "fits t asize b \<longleftrightarrow> load32 (mem t) (rover t - 4) AND 1 = 0 \<and>
      asize \<le> ucast (load32 (mem t) (rover t - 4) AND NOT 7)"
    using rd(3) b by (simp add: fits_def)
  show ?case
  proof (cases "fits t asize b")
    case True
    then show ?thesis
      using rd(1-3) nz b fb
      by (subst find_fit_fwd.simps) simp
  next
    case False
    let ?t = "t\<lparr>rover := nb\<rparr>"
    have c': "chain ?t (rover ?t) bs e" using c by (simp add: chain_rover)
    have e': "GET_SIZE (HDRP e) ?t = Inr (0, ?t)" using Cons.prems(2)
      by (auto simp: GET_SIZE_def bnd_def ret_def GET_rover split: sum.splits)
    have fe: "fits ?t asize = fits t asize" by (rule ext) (simp add: fits_rover)
    from Cons.IH[OF c' e'] have ih: "find_fit_fwd asize ?t = Some (Inr (case find (fits t asize) bs of
       Some b \<Rightarrow> (Some b, t\<lparr>rover := b\<rparr>) | None \<Rightarrow> (None, t\<lparr>rover := e\<rparr>)))"
      by (simp add: fe cong: option.case_cong)
    from False show ?thesis
      using rd(1-3) rd(5) nz b n ih fb
      by (subst find_fit_fwd.simps) auto
  qed
qed

lemma find_fit_wrap_chain:
  "chain s bp pre old \<Longrightarrow>
   find_fit_wrap asize old bp s = Some (Inr (case find (fits s asize) pre of
       Some b \<Rightarrow> (b, s) | None \<Rightarrow> (NULL, s)))"
proof (induction pre arbitrary: bp)
  case Nil
  then show ?case by (subst find_fit_wrap.simps) simp
next
  case (Cons b bs)
  from Cons.prems obtain nb u where b: "b = bp" and n: "NEXT_BLKP bp s = Inr (nb, u)"
    and ne: "nb \<noteq> bp" and c: "chain s nb bs old" by (auto split: sum.splits)
  note rd = block_reads[OF n]
  from chain_less[OF Cons.prems] have lt: "bp < old" by simp
  have fb: "fits s asize b \<longleftrightarrow> load32 (mem s) (bp - 4) AND 1 = 0 \<and>
      asize \<le> ucast (load32 (mem s) (bp - 4) AND NOT 7)"
    using rd(3) b by (simp add: fits_def)
  show ?case
  proof (cases "fits s asize b")
    case True
    then show ?thesis using rd(1-3) b lt fb
      by (subst find_fit_wrap.simps) simp
  next
    case False
    then show ?thesis using rd(1-3) rd(5) b lt n Cons.IH[OF c] fb
      by (subst find_fit_wrap.simps) auto
  qed
qed

lemma find_fit_chain:
  assumes pre: "chain s (heap_listp s) pre (rover s)"
    and post: "chain s (rover s) post e"
    and epi: "GET_SIZE (HDRP e) s = Inr (0, s)"
  shows "find_fit asize s = Some (Inr (next_fit s asize pre post e))"
proof (cases "find (fits s asize) post")
  case (Some b)
  with find_fit_fwd_chain[OF post epi, of asize] show ?thesis
    by (simp add: find_fit_def Let_def obnd_def lift_def ret_def next_fit_def)
next
  case None
  let ?t = "s\<lparr>rover := e\<rparr>"
  from None find_fit_fwd_chain[OF post epi, of asize]
  have f: "find_fit_fwd asize s = Some (Inr (None, ?t))" by simp
  have "chain ?t (heap_listp ?t) pre (rover s)" using pre by (simp add: chain_rover)
  from find_fit_wrap_chain[OF this, of asize]
  have w: "find_fit_wrap asize (rover s) (heap_listp s) ?t = Some (Inr (case find (fits s asize) pre of
       Some b \<Rightarrow> (b, ?t) | None \<Rightarrow> (NULL, ?t)))"
    by (simp add: fits_rover cong: find_cong)
  from None f w show ?thesis
    by (simp add: find_fit_def Let_def obnd_def lift_def gets_def next_fit_def split: option.splits)
qed


text \<open>
  C6: on a heap whose blocks from \<^verbatim>\<open>heap_listp\<close> to the cursor are \<open>pre\<close> and from the cursor
  to the epilogue \<open>e\<close> (the first header of size 0) are \<open>post\<close>, \<^verbatim>\<open>find_fit\<close> returns, and
  its result is that of the specified search: the first block of \<open>post\<close> that is free with
  size at least \<open>asize\<close>, with the cursor left at it; if there is none, the first such block
  of \<open>pre\<close>, the blocks before the position where the forward scan started (the cursor is
  then left at the epilogue); and \<open>NULL\<close> if there is none either.
\<close>

theorem find_fit_is_next_fit:
  assumes "chain s (heap_listp s) pre (rover s)"
    and "chain s (rover s) post e"
    and "GET_SIZE (HDRP e) s = Inr (0, s)"
  shows "find_fit asize s = Some (Inr (next_fit s asize pre post e))"
  using assms by (rule find_fit_chain)

subsection \<open>Failure of the replacement allocation (C7)\<close>

text \<open>
  C7: when \<^verbatim>\<open>mm_malloc\<close> fails inside \<^verbatim>\<open>mm_realloc\<close> (it returns \<open>NULL\<close>), \<^verbatim>\<open>mm_realloc\<close>
  returns \<open>NULL\<close>, and the memory (every header, footer and payload byte, so the original
  block and its contents) and the bounds of the region are unchanged: the state differs
  from the state before the call at most in the search cursor \<^verbatim>\<open>rover\<close>, which the failed
  search has moved. The region is assumed to lie at positive addresses.
\<close>

theorem realloc_failure_leaves_heap:
  assumes "0 < mem_start_brk s" and "0 \<le> mem_brk s"
    and "mm_malloc sz s = Some (Inr (NULL, s'))"
  shows "mm_realloc p sz s = Some (Inr (NULL, s')) \<and> s' = s\<lparr>rover := rover s'\<rparr> \<and>
         mem s' = mem s \<and> mem_brk s' = mem_brk s"
proof -
  from realloc_failure[OF assms, of p]
  have 1: "mm_realloc p sz s = Some (Inr (NULL, s'))" and 2: "s' = s\<lparr>rover := rover s'\<rparr>"
    by simp_all
  from 2 have "mem s' = mem s" "mem_brk s' = mem_brk s"
    by (metis state.select_convs(1,3) state.surjective state.update_convs(6))+
  with 1 2 show ?thesis by simp
qed

subsection \<open>The length of the copy in \<^verbatim>\<open>mm_realloc\<close> (C2)\<close>

lemma uint_push32: "uint (push_bit 32 (ucast (hi::uint) :: size_t)) = 2 ^ 32 * uint hi"
proof -
  have u: "uint (ucast hi :: size_t) = uint hi" by (simp add: uint_up_ucast is_up)
  have b: "uint hi < 2 ^ 32" using uint_lt2p[of hi] by simp
  have "uint (push_bit 32 (ucast hi :: size_t)) = (uint hi * 2 ^ 32) mod 2 ^ 64"
    by (simp add: push_bit_eq_mult uint_word_ariths u)
  also have "\<dots> = uint hi * 2 ^ 32" using b uint_ge_0[of hi]
    by (intro mod_pos_pos_trivial) simp_all
  finally show ?thesis by simp
qed

lemma load64_ge:
  assumes "load32 m (a + 4) \<noteq> 0"
  shows "2 ^ 32 \<le> uint (load64 m a)"
proof -
  define hi where "hi = load32 m (a + 4)"
  define lo where "lo = load32 m a"
  have "uint hi \<noteq> 0" using assms by (simp add: hi_def uint_0_iff)
  then have h: "1 \<le> uint hi" using uint_ge_0[of hi] by linarith
  have "push_bit 32 (ucast hi :: size_t) \<le> ucast lo OR push_bit 32 (ucast hi)"
    by (meson le_word_or1)
  then have "2 ^ 32 * uint hi \<le> uint (load64 m a)"
    unfolding load64_def hi_def[symmetric] lo_def[symmetric] word_le_def uint_push32 .
  with h show ?thesis by simp
qed

text \<open>The number of bytes copied by \<^verbatim>\<open>mm_realloc\<close> is the new size whenever the header of
  the old block is not zero, whatever the size of the old block.\<close>

lemma realloc_copy_is_new_size:
  assumes "in_heap s (p - 8) 8" and "load32 (mem s) (p - 4) \<noteq> 0" and "uint sz < 2 ^ 32"
  shows "realloc_copy p sz s = Inr (sz, s)"
proof -
  from load64_ge[of "mem s" "p - 8"] assms(2) have "2 ^ 32 \<le> uint (load64 (mem s) (p - 8))"
    by simp
  with assms(3) have "sz < load64 (mem s) (p - 8)" by (simp add: word_less_def)
  with assms(1) show ?thesis
    by (simp add: realloc_copy_def SIZE_T_SIZE_def ALIGN_def bnd_def GET64_def ret_def)
qed

subsection \<open>Size adjustment (C9)\<close>

lemma adjust_size_small: "sz \<le> 8 \<Longrightarrow> adjust_size sz = 16"
  by (simp add: adjust_size_def)

lemma adjust_size_large:
  "8 < sz \<Longrightarrow> sz \<le> 18446744073709551600 \<Longrightarrow>
   uint (adjust_size sz) = round_up8 (uint sz + 8)"
  apply (simp add: adjust_size_def round_up8_def)
  apply (simp add: uint_word_ariths uint_div word_le_def word_less_def)
  done

lemma adjust_size_aligned: "uint (adjust_size sz) mod 8 = 0"
  apply (simp add: adjust_size_def)
  apply (simp add: uint_word_ariths uint_div word_le_def word_less_def)
  done

lemma round_up8_least:
  "round_up8 n mod 8 = 0 \<and> n \<le> round_up8 n \<and> round_up8 n < n + 8"
  unfolding round_up8_def by presburger

text \<open>
  C9, as stated, fails where \<^verbatim>\<open>size + 15\<close> wraps around in \<^verbatim>\<open>size_t\<close>: for the request
  \<open>2^64 - 1\<close> the adjusted size is 8, not the request plus 8 rounded up.
\<close>

theorem adjust_size_wraps:
  "adjust_size 18446744073709551615 = 8 \<and>
   round_up8 (uint (18446744073709551615 :: size_t) + 8) = 18446744073709551624"
  by (simp add: adjust_size_def round_up8_def)

text \<open>
  C9 (amended): for a request of at most 8 bytes the adjusted block size is 16; for a
  larger request of at most \<open>2^64 - 16\<close> bytes it is the request plus 8 bytes of overhead
  rounded up to the next multiple of 8; for every request it is a multiple of 8.
\<close>

theorem adjust_size_spec:
  "(sz \<le> 8 \<longrightarrow> adjust_size sz = 16) \<and>
   (8 < sz \<and> sz \<le> 18446744073709551600 \<longrightarrow>
      uint (adjust_size sz) = round_up8 (uint sz + 8)) \<and>
   uint (adjust_size sz) mod 8 = 0"
  using adjust_size_small adjust_size_large adjust_size_aligned by blast

subsection \<open>Resizing to zero (C1)\<close>

text \<open>
  C1: \<^verbatim>\<open>mm_realloc(p, 0)\<close> returns \<open>NULL\<close>, as the claim says, but it leaves the state as it
  is: \<^verbatim>\<open>mm_malloc(0)\<close> returns \<open>NULL\<close>, and \<^verbatim>\<open>mm_realloc\<close> returns on a \<open>NULL\<close> result
  before it reaches its test for size 0, so the block is not freed.
\<close>

theorem realloc_zero_is_noop: "mm_realloc p 0 s = Some (Inr (NULL, s))"
  by (simp add: mm_realloc_def mm_malloc_def monad_defs)

subsection \<open>The free-list variables (C10) and the checker (C3)\<close>

text \<open>
  C10: \<^verbatim>\<open>freeHead\<close>, \<^verbatim>\<open>firstHead\<close> and \<^verbatim>\<open>num_freeblocks\<close> are never written: after any
  sequence of calls of the public operations that returns, started in the initial state,
  they still hold their initial values.
\<close>

theorem free_list_state_never_written:
  "run_calls cs (fresh base cap m) = Some (Inr (rs, s)) \<Longrightarrow>
   freeHead s = NULL \<and> firstHead s = NULL \<and> num_freeblocks s = 0"
  by (drule run_calls_untouched) (simp add: untouched_def fresh_def)

lemma mm_check_null_head: "firstHead s = NULL \<Longrightarrow> mm_check s = Some (Inl AssertFail)"
  by (simp add: mm_check_def get_alloc_def monad_defs)

text \<open>
  C3: in every state reached from the initial state by calls of the public operations,
  including those in which all heap invariants hold, \<^verbatim>\<open>mm_check\<close> aborts: \<^verbatim>\<open>firstHead\<close>
  is still \<open>NULL\<close>, and the first statement of \<^verbatim>\<open>mm_check\<close> passes it to \<^verbatim>\<open>get_alloc\<close>,
  whose \<^verbatim>\<open>assert(h)\<close> fails.
\<close>

theorem mm_check_always_aborts:
  "run_calls cs (fresh base cap m) = Some (Inr (rs, s)) \<Longrightarrow>
   mm_check s = Some (Inl AssertFail)"
  by (drule run_calls_untouched) (simp add: untouched_def fresh_def mm_check_null_head)

section \<open>The heap invariant\<close>

text \<open>
  For a caller that respects the interface, every public operation keeps the heap a
  well-formed sequence of blocks in which no two neighbours are both free. The proof
  describes the effect of each internal function on the list of blocks.
\<close>

subsection \<open>Block sequences and boundary tags\<close>

lemma span_simps [simp]: "span [] = 0" "span ((n, a) # bs) = n + span bs"
  "span (xs @ ys) = span xs + span ys"
  by (simp_all add: span_def)

lemma blocks_end: "blocks s p bs q \<Longrightarrow> q = p + span bs"
  by (induction bs arbitrary: p) fastforce+

lemma blocks_sizes: "blocks s p bs q \<Longrightarrow> (n, a) \<in> set bs \<Longrightarrow> 8 \<le> n"
  by (induction bs arbitrary: p) (auto simp: tagged_def)

lemma blocks_span_nonneg: "blocks s p bs q \<Longrightarrow> 0 \<le> span bs"
  by (induction bs arbitrary: p) (auto simp: tagged_def)

lemma blocks_append:
  "blocks s p (xs @ ys) r \<longleftrightarrow> blocks s p xs (p + span xs) \<and> blocks s (p + span xs) ys r"
  by (induction xs arbitrary: p) (auto simp: add.assoc)

lemma load32_cong: "(\<And>x. a \<le> x \<Longrightarrow> x < a + 4 \<Longrightarrow> m' x = m x) \<Longrightarrow> load32 m' a = load32 m a"
  by (simp add: load32_def)

lemma tagged_frame:
  assumes "tagged s p n a"
    and "\<And>x. p - 4 \<le> x \<Longrightarrow> x < p \<Longrightarrow> mem s' x = mem s x"
    and "\<And>x. p + n - 8 \<le> x \<Longrightarrow> x < p + n - 4 \<Longrightarrow> mem s' x = mem s x"
    and "mem_start_brk s' = mem_start_brk s" and "mem_brk s \<le> mem_brk s'"
  shows "tagged s' p n a"
proof -
  have "load32 (mem s') (p - 4) = load32 (mem s) (p - 4)"
    by (rule load32_cong) (simp add: assms(2))
  moreover have "load32 (mem s') (p + n - 8) = load32 (mem s) (p + n - 8)"
    by (rule load32_cong) (simp add: assms(3))
  ultimately show ?thesis using assms(1,4,5) by (auto simp: tagged_def in_heap_def)
qed

lemma blocks_frame:
  assumes "blocks s p bs q"
    and "\<And>x. p - 4 \<le> x \<Longrightarrow> x < q - 4 \<Longrightarrow> mem s' x = mem s x"
    and "mem_start_brk s' = mem_start_brk s" and "mem_brk s \<le> mem_brk s'"
  shows "blocks s' p bs q"
  using assms(1,2)
proof (induction bs arbitrary: p)
  case Nil
  then show ?case by simp
next
  case (Cons b bs)
  obtain n a where b: "b = (n, a)" by (cases b)
  from Cons.prems(1) b have t: "tagged s p n a" and r: "blocks s (p + n) bs q" by simp_all
  from t have n8: "8 \<le> n" by (simp add: tagged_def)
  from blocks_end[OF r] blocks_span_nonneg[OF r] have q: "p + n \<le> q" by simp
  have "tagged s' p n a"
    by (rule tagged_frame[OF t _ _ assms(3,4)]) (use n8 q in \<open>auto intro!: Cons.prems(2)\<close>)
  moreover have "blocks s' (p + n) bs q"
    by (rule Cons.IH[OF r]) (use n8 in \<open>auto intro!: Cons.prems(2)\<close>)
  ultimately show ?case using b by simp
qed

lemma tag_alloc_ne: "8 dvd n \<Longrightarrow> (tag n a AND 1 \<noteq> 0) = a" "8 dvd n \<Longrightarrow> (tag n a AND 1 = 0) = (\<not> a)"
  by (simp_all add: tag_alloc)

lemma uint_tag: "0 \<le> n \<Longrightarrow> n < 2 ^ 32 \<Longrightarrow> 8 dvd n \<Longrightarrow> uint (tag n a AND - 8) = n"
  by (simp add: tag_size uint_wi_32)

lemma fix_rover_tagged:
  assumes "tagged s B N False"
  shows "fix_rover B s = Inr (B, s\<lparr>rover := (if B < rover s \<and> rover s < B + N then B else rover s)\<rparr>)"
proof -
  from assms have n: "0 \<le> N" "N < 2 ^ 32" "8 dvd N" and ih: "mem_start_brk s \<le> B - 4" "B \<le> mem_brk s"
    and h: "load32 (mem s) (B - 4) = tag N False"
    by (auto simp: tagged_def in_heap_def mod_eq_0_iff_dvd)
  show ?thesis using n ih
    by (simp add: fix_rover_def sym_defs run_simps in_heap_def h uint_tag)
qed

lemma retag_other:
  "\<not> (B - 4 \<le> x \<and> x < B) \<Longrightarrow> \<not> (B + N - 8 \<le> x \<and> x < B + N - 4) \<Longrightarrow> retag m B N a x = m x"
  by (auto simp: retag_def store32_other)

lemma retag_swap: "8 \<le> N \<Longrightarrow>
   store32 (store32 m (B + N - 8) v) (B - 4) w = store32 (store32 m (B - 4) w) (B + N - 8) v"
  by (rule ext) (auto simp: store32_def)

lemma tagged_retag:
  assumes "8 \<le> N" "N < 2 ^ 32" "N mod 8 = 0" "in_heap s (B - 4) N"
  shows "tagged (s\<lparr>mem := retag (mem s) B N a\<rparr>) B N a"
  using assms by (simp add: tagged_def retag_def in_heap_def load_store_same load_store_other)

text \<open>On a free block whose neighbours are as \<open>around\<close> describes, \<^verbatim>\<open>coalesce\<close> returns at once
  when both neighbours are allocated, and otherwise runs the merge and then the adjustment
  of the cursor.\<close>

lemma coalesce_dispatch:
  assumes "around s bp pn pa n nn na"
  shows "coalesce bp s =
     (if pa \<and> na then Inr (bp, s)
      else bnd (coalesce_merge bp (if pa then 1 else 0) (if na then 1 else 0) (word_of_int n))
             fix_rover s)"
proof -
  from assms have prev: "tagged s (bp - pn) pn pa" and cur: "tagged s bp n False"
    and hn: "load32 (mem s) (bp + n - 4) = tag nn na" "in_heap s (bp + n - 4) 4" "8 dvd nn"
    by (auto simp: around_def mod_eq_0_iff_dvd)
  from prev have p: "0 \<le> pn" "pn < 2 ^ 32" "8 dvd pn" "8 \<le> pn"
    and pi: "mem_start_brk s \<le> bp - pn - 4"
    and ph: "load32 (mem s) (bp - pn - 4) = tag pn pa"
    and pf: "load32 (mem s) (bp - 8) = tag pn pa"
    by (auto simp: tagged_def in_heap_def mod_eq_0_iff_dvd)
  from cur have c: "0 \<le> n" "n < 2 ^ 32" "8 dvd n" "8 \<le> n"
    and ci: "bp - 4 + n \<le> mem_brk s"
    and ch: "load32 (mem s) (bp - 4) = tag n False"
    by (auto simp: tagged_def in_heap_def mod_eq_0_iff_dvd)
  from hn(2) have ni: "bp + n \<le> mem_brk s" by (simp add: in_heap_def)
  show ?thesis using p c pi ci ni hn(3)
    by (simp add: coalesce_stages sym_defs run_simps in_heap_def ph pf ch hn(1) uint_wi_32
          tag_alloc tag_size ucast_wi_32_64)
qed

lemma merge_case2:
  assumes "around s bp pn True n nn False"
  shows "coalesce_merge bp 1 0 (word_of_int n) s
           = Inr (bp, s\<lparr>mem := retag (mem s) bp (n + nn) False\<rparr>)"
proof -
  from assms have cur: "tagged s bp n False" and nxt: "tagged s (bp + n) nn False"
    and b: "pn + n + nn < 2 ^ 32" and prev: "tagged s (bp - pn) pn True"
    by (auto simp: around_def)
  from prev have p: "0 \<le> pn" by (auto simp: tagged_def)
  from cur have c: "0 \<le> n" "n < 2 ^ 32" "8 dvd n" "8 \<le> n"
    and ci: "mem_start_brk s \<le> bp - 4" "bp - 4 + n \<le> mem_brk s"
    and ch: "load32 (mem s) (bp - 4) = tag n False"
    by (auto simp: tagged_def in_heap_def mod_eq_0_iff_dvd)
  from nxt have x: "0 \<le> nn" "nn < 2 ^ 32" "8 dvd nn" "8 \<le> nn"
    and xi: "bp + n - 4 + nn \<le> mem_brk s"
    and xh: "load32 (mem s) (bp + n - 4) = tag nn False"
    by (auto simp: tagged_def in_heap_def mod_eq_0_iff_dvd)
  have s64: "uint (word_of_int n + word_of_int nn :: size_t) = n + nn"
    using uint_wi_64[of "n + nn"] c x b p by simp
  have s32: "uint (word_of_int n + word_of_int nn :: uint) = n + nn"
    using uint_wi_32[of "n + nn"] c x b p by simp
  have d: "8 dvd (n + nn)" using c x by simp
  show ?thesis using c x ci xi b p d
    by (simp add: coalesce_merge_def sym_defs run_simps in_heap_def ch xh uint_wi_32 Let_def
          tag_size ucast_wi_32_64 ucast_pack0 s64 s32 load_store_same load_store_other retag_def)
qed

lemma load32_retag_other:
  "(q + 4 \<le> B - 4 \<or> B \<le> q) \<Longrightarrow> (q + 4 \<le> B + N - 8 \<or> B + N - 4 \<le> q) \<Longrightarrow>
   load32 (retag m B N a) q = load32 m q"
  by (simp add: retag_def load_store_other)

lemma merge_case3:
  assumes "around s bp pn False n nn True"
  shows "coalesce_merge bp 0 1 (word_of_int n) s
           = Inr (bp - pn, s\<lparr>mem := retag (mem s) (bp - pn) (pn + n) False\<rparr>)"
proof -
  from assms have cur: "tagged s bp n False" and prev: "tagged s (bp - pn) pn False"
    and b: "pn + n + nn < 2 ^ 32" and x: "0 \<le> nn"
    by (auto simp: around_def)
  from prev have p: "0 \<le> pn" "pn < 2 ^ 32" "8 dvd pn" "8 \<le> pn"
    and pi: "mem_start_brk s \<le> bp - pn - 4"
    and ph: "load32 (mem s) (bp - pn - 4) = tag pn False"
    and pf: "load32 (mem s) (bp - 8) = tag pn False"
    by (auto simp: tagged_def in_heap_def mod_eq_0_iff_dvd)
  from cur have c: "0 \<le> n" "n < 2 ^ 32" "8 dvd n" "8 \<le> n"
    and ci: "mem_start_brk s \<le> bp - 4" "bp - 4 + n \<le> mem_brk s"
    and ch: "load32 (mem s) (bp - 4) = tag n False"
    by (auto simp: tagged_def in_heap_def mod_eq_0_iff_dvd)
  have s64: "uint (word_of_int n + word_of_int pn :: size_t) = pn + n"
    using uint_wi_64[of "pn + n"] c x b p by (simp add: add.commute)
  have d: "8 dvd (pn + n)" using c p by simp
  have sw: "store32 (store32 (mem s) (bp + n - 8) (tag (pn + n) False)) (bp - pn - 4)
              (tag (pn + n) False) = retag (mem s) (bp - pn) (pn + n) False"
    using retag_swap[of "pn + n" "mem s" "bp - pn" "tag (pn + n) False" "tag (pn + n) False"] p c
    by (simp add: retag_def)
  show ?thesis using c x ci pi b p d
    by (simp add: coalesce_merge_def sym_defs run_simps in_heap_def ch ph pf uint_wi_32 Let_def
          tag_size ucast_wi_32_64 ucast_pack0 s64 load_store_same load_store_other sw
          load32_retag_other)
qed

lemma merge_case4:
  assumes "around s bp pn False n nn False"
  shows "coalesce_merge bp 0 0 (word_of_int n) s
           = Inr (bp - pn, s\<lparr>mem := retag (mem s) (bp - pn) (pn + n + nn) False\<rparr>)"
proof -
  from assms have cur: "tagged s bp n False" and prev: "tagged s (bp - pn) pn False"
    and nxt: "tagged s (bp + n) nn False"
    and b: "pn + n + nn < 2 ^ 32"
    by (auto simp: around_def)
  from prev have p: "0 \<le> pn" "pn < 2 ^ 32" "8 dvd pn" "8 \<le> pn"
    and pi: "mem_start_brk s \<le> bp - pn - 4"
    and ph: "load32 (mem s) (bp - pn - 4) = tag pn False"
    and pf: "load32 (mem s) (bp - 8) = tag pn False"
    by (auto simp: tagged_def in_heap_def mod_eq_0_iff_dvd)
  from cur have c: "0 \<le> n" "n < 2 ^ 32" "8 dvd n" "8 \<le> n"
    and ci: "mem_start_brk s \<le> bp - 4" "bp - 4 + n \<le> mem_brk s"
    and ch: "load32 (mem s) (bp - 4) = tag n False"
    by (auto simp: tagged_def in_heap_def mod_eq_0_iff_dvd)
  from nxt have x: "0 \<le> nn" "nn < 2 ^ 32" "8 dvd nn" "8 \<le> nn"
    and xi: "bp + n - 4 + nn \<le> mem_brk s"
    and xh: "load32 (mem s) (bp + n - 4) = tag nn False"
    and xf: "load32 (mem s) (bp + n + nn - 8) = tag nn False"
    by (auto simp: tagged_def in_heap_def mod_eq_0_iff_dvd)
  have s32: "uint (word_of_int pn + word_of_int nn :: uint) = pn + nn"
    using uint_wi_32[of "pn + nn"] c x b p by simp
  have u: "(ucast (word_of_int pn + word_of_int nn :: uint) :: size_t) = word_of_int (pn + nn)"
    using ucast_wi_32_64[of "pn + nn"] c x b p by simp
  have s64: "uint (word_of_int n + (word_of_int pn + word_of_int nn) :: size_t) = pn + n + nn"
    using uint_wi_64[of "pn + n + nn"] c x b p by (simp add: algebra_simps)
  have d: "8 dvd (pn + n + nn)" using c p x by simp
  have r: "retag (mem s) (bp - pn) (pn + n + nn) False =
      store32 (store32 (mem s) (bp - pn - 4) (tag (pn + n + nn) False))
        (bp + n + nn - 8) (tag (pn + n + nn) False)"
    by (simp add: retag_def algebra_simps)
  show ?thesis unfolding r using c x ci pi xi b p d
    by (simp add: coalesce_merge_def sym_defs run_simps in_heap_def ch ph pf xh xf uint_wi_32
          Let_def tag_size ucast_wi_32_64 ucast_pack0 s64 s32 u load_store_same load_store_other)
qed

subsection \<open>The result of \<^verbatim>\<open>coalesce\<close> on tagged blocks\<close>

text \<open>The four cases of \<^verbatim>\<open>coalesce\<close> in one statement: the merged block, at \<open>B\<close> with \<open>N\<close> bytes,
  gets a free header and footer, and the cursor moves to \<open>B\<close> when it pointed strictly
  inside the merged block.\<close>

lemma coalesce_spec:
  assumes ar: "around s bp pn pa n nn na"
  defines "B \<equiv> (if pa then bp else bp - pn)"
    and "N \<equiv> (if pa then 0 else pn) + n + (if na then 0 else nn)"
  shows "coalesce bp s =
     (if pa \<and> na then Inr (bp, s)
      else Inr (B, s\<lparr>mem := retag (mem s) B N False,
                      rover := (if B < rover s \<and> rover s < B + N then B else rover s)\<rparr>))"
proof (cases "pa \<and> na")
  case True
  with coalesce_dispatch[OF ar] show ?thesis by simp
next
  case False
  from ar have prev: "tagged s (bp - pn) pn pa" and cur: "tagged s bp n False"
    and nx: "0 \<le> nn" "nn mod 8 = 0" "\<not> na \<longrightarrow> tagged s (bp + n) nn False"
    and b: "pn + n + nn < 2 ^ 32"
    by (auto simp: around_def)
  from prev have p: "8 \<le> pn" "pn mod 8 = 0" and pi: "mem_start_brk s \<le> bp - pn - 4"
    by (auto simp: tagged_def in_heap_def)
  from cur have c: "8 \<le> n" "n mod 8 = 0" and ci: "mem_start_brk s \<le> bp - 4" "bp - 4 + n \<le> mem_brk s"
    by (auto simp: tagged_def in_heap_def)
  have xi: "\<not> na \<Longrightarrow> bp + n - 4 + nn \<le> mem_brk s \<and> 8 \<le> nn"
    using nx(3) by (auto simp: tagged_def in_heap_def)
  have m: "coalesce_merge bp (if pa then 1 else 0) (if na then 1 else 0) (word_of_int n) s
       = Inr (B, s\<lparr>mem := retag (mem s) B N False\<rparr>)"
  proof (cases pa)
    case True
    with False have na: "\<not> na" by simp
    with True ar merge_case2[of s bp pn n nn] show ?thesis by (simp add: B_def N_def)
  next
    case pa: False
    show ?thesis
    proof (cases na)
      case True
      with pa ar merge_case3[of s bp pn n nn] show ?thesis by (simp add: B_def N_def)
    next
      case False
      with pa ar merge_case4[of s bp pn n nn] show ?thesis by (simp add: B_def N_def)
    qed
  qed
  have N: "8 \<le> N" "N < 2 ^ 32" "N mod 8 = 0" using p c nx b xi
    by (auto simp: N_def)
  have ih: "in_heap s (B - 4) N" using p c pi ci xi nx
    by (auto simp: B_def N_def in_heap_def)
  from tagged_retag[OF N ih] have t: "tagged (s\<lparr>mem := retag (mem s) B N False\<rparr>) B N False" .
  from False coalesce_dispatch[OF ar]
  have "coalesce bp s =
      bnd (coalesce_merge bp (if pa then 1 else 0) (if na then 1 else 0) (word_of_int n))
        fix_rover s"
    by (simp only: if_False)
  also have "\<dots> = fix_rover B (s\<lparr>mem := retag (mem s) B N False\<rparr>)"
    by (simp add: bnd_def m)
  also have "\<dots> = Inr (B, s\<lparr>mem := retag (mem s) B N False,
      rover := (if B < rover s \<and> rover s < B + N then B else rover s)\<rparr>)"
    using fix_rover_tagged[OF t] by simp
  finally show ?thesis using False by (simp only: if_False)
qed

subsection \<open>Replacing a run of blocks by another run of the same length\<close>

lemma blocks_replace:
  assumes old: "blocks s P (xs @ mid @ ys) Q"
    and new: "blocks s' (P + span xs) mid' (P + span xs + span mid)"
    and fr: "\<And>x. x < P + span xs - 4 \<or> P + span xs + span mid - 4 \<le> x \<Longrightarrow> mem s' x = mem s x"
    and reg: "mem_start_brk s' = mem_start_brk s" "mem_brk s \<le> mem_brk s'"
  shows "blocks s' P (xs @ mid' @ ys) Q"
proof -
  let ?B = "P + span xs"
  from old have 1: "blocks s P xs ?B" and 2: "blocks s ?B mid (?B + span mid)"
    and 3: "blocks s (?B + span mid) ys Q"
    by (auto simp: blocks_append)
  from blocks_span_nonneg[OF 2] have m0: "0 \<le> span mid" .
  have a1: "blocks s' P xs ?B"
    by (rule blocks_frame[OF 1 _ reg]) (simp add: fr)
  have a3: "blocks s' (?B + span mid) ys Q"
    by (rule blocks_frame[OF 3 _ reg]) (simp add: fr)
  from blocks_end[OF new] have "span mid' = span mid" by simp
  with a1 new a3 show ?thesis by (simp add: blocks_append)
qed

lemma naf_Cons:
  "no_adj_free ((n, a) # ys) \<longleftrightarrow> no_adj_free ys \<and> (ys \<noteq> [] \<longrightarrow> a \<or> snd (hd ys))"
  by (cases ys) auto

lemma naf_append:
  "no_adj_free (xs @ ys) \<longleftrightarrow>
     no_adj_free xs \<and> no_adj_free ys \<and> (xs \<noteq> [] \<and> ys \<noteq> [] \<longrightarrow> snd (last xs) \<or> snd (hd ys))"
proof (induction xs)
  case Nil
  then show ?case by simp
next
  case (Cons x xs)
  obtain n a where x: "x = (n, a)" by (cases x)
  show ?case
  proof (cases xs)
    case Nil
    then show ?thesis using x by (simp add: naf_Cons)
  next
    case (Cons y zs)
    with Cons.IH x show ?thesis by (auto simp: naf_Cons)
  qed
qed

lemma starts_append: "starts P (xs @ ys) = starts P xs @ starts (P + span xs) ys"
  by (induction xs arbitrary: P) (auto simp: add.assoc)

lemma starts_bounds: "blocks s P bs Q \<Longrightarrow> x \<in> set (starts P bs) \<Longrightarrow> P \<le> x \<and> x < Q"
proof (induction bs arbitrary: P)
  case Nil
  then show ?case by simp
next
  case (Cons b bs)
  obtain n a where b: "b = (n, a)" by (cases b)
  from Cons.prems(1) b have t: "tagged s P n a" and r: "blocks s (P + n) bs Q" by simp_all
  from t have n8: "8 \<le> n" by (simp add: tagged_def)
  from blocks_end[OF r] blocks_span_nonneg[OF r] have q: "P + n \<le> Q" by simp
  from Cons.prems(2) b have "x = P \<or> x \<in> set (starts (P + n) bs)" by simp
  then show ?case
  proof
    assume "x = P" with n8 q show ?thesis by simp
  next
    assume "x \<in> set (starts (P + n) bs)"
    from Cons.IH[OF r this] n8 show ?thesis by simp
  qed
qed

lemma starts_split:
  "x \<in> set (starts P bs) \<Longrightarrow> \<exists>xs n a ys. bs = xs @ (n, a) # ys \<and> x = P + span xs"
proof (induction bs arbitrary: P)
  case Nil
  then show ?case by simp
next
  case (Cons b bs)
  obtain n a where b: "b = (n, a)" by (cases b)
  from Cons.prems b have "x = P \<or> x \<in> set (starts (P + n) bs)" by simp
  then show ?case
  proof
    assume "x = P"
    then have "b # bs = [] @ (n, a) # bs \<and> x = P + span []" using b by simp
    then show ?thesis by blast
  next
    assume "x \<in> set (starts (P + n) bs)"
    from Cons.IH[OF this] obtain xs m c ys where "bs = xs @ (m, c) # ys" "x = P + n + span xs"
      by blast
    then have "b # bs = ((n, a) # xs) @ (m, c) # ys \<and> x = P + span ((n, a) # xs)"
      using b by simp
    then show ?thesis by blast
  qed
qed

subsection \<open>The layout when blocks are replaced\<close>

lemma heap_layD:
  assumes "heap_lay s bs"
  shows "0 < mem_start_brk s" "heap_listp s = mem_start_brk s + 8"
    "tagged s (mem_start_brk s + 8) 8 True"
    "blocks s (mem_start_brk s + 16) bs (mem_brk s)"
    "load32 (mem s) (mem_brk s - 4) = tag 0 True"
    "mem_brk s \<le> mem_max_addr s" "mem_max_addr s - mem_start_brk s < 2 ^ 32"
    "mem_brk s = mem_start_brk s + 16 + span bs"
proof -
  from assms show "0 < mem_start_brk s" "heap_listp s = mem_start_brk s + 8"
    "tagged s (mem_start_brk s + 8) 8 True"
    "load32 (mem s) (mem_brk s - 4) = tag 0 True"
    "mem_brk s \<le> mem_max_addr s" "mem_max_addr s - mem_start_brk s < 2 ^ 32"
    by (simp_all add: heap_lay_def)
  from assms show b: "blocks s (mem_start_brk s + 16) bs (mem_brk s)"
    by (simp add: heap_lay_def add.commute)
  from blocks_end[OF b] show "mem_brk s = mem_start_brk s + 16 + span bs" .
qed

lemma blocks_span_dvd: "blocks s p bs q \<Longrightarrow> span bs mod 8 = 0"
  by (induction bs arbitrary: p) (auto simp: tagged_def mod_eq_0_iff_dvd)

lemma blocks_span_ge: "blocks s p bs q \<Longrightarrow> bs \<noteq> [] \<Longrightarrow> 8 \<le> span bs"
proof (cases bs)
  case Nil
  assume "bs \<noteq> []" with Nil show ?thesis by simp
next
  case (Cons b cs)
  assume b: "blocks s p bs q"
  obtain n a where "b = (n, a)" by (cases b)
  with b Cons have "tagged s p n a" "blocks s (p + n) cs q" by simp_all
  with blocks_span_nonneg[of s "p + n" cs q] Cons \<open>b = (n, a)\<close>
  show ?thesis by (simp add: tagged_def)
qed

lemma blocks_mem_eq:
  "mem s' = mem s \<Longrightarrow> mem_start_brk s' = mem_start_brk s \<Longrightarrow> mem_brk s' = mem_brk s \<Longrightarrow>
   blocks s' p bs q = blocks s p bs q"
  by (induction bs arbitrary: p) (auto simp: tagged_def in_heap_def)

lemma lay_replace:
  assumes lay: "heap_lay s (xs @ mid @ ys)"
    and B: "B = mem_start_brk s + 16 + span xs"
    and new: "blocks s' B mid' (B + span mid)"
    and fr: "\<And>x. x < B - 4 \<or> B + span mid - 4 \<le> x \<Longrightarrow> mem s' x = mem s x"
    and same: "mem_start_brk s' = mem_start_brk s" "mem_brk s' = mem_brk s"
      "mem_max_addr s' = mem_max_addr s" "heap_listp s' = heap_listp s"
  shows "heap_lay s' (xs @ mid' @ ys)"
proof -
  let ?P = "mem_start_brk s + 8"
  let ?xs = "(8, True) # xs"
  have B': "?P + span ?xs = B" by (simp add: B)
  from lay have old: "blocks s ?P (?xs @ mid @ ys) (mem_brk s)"
    by (simp add: heap_lay_def)
  from new have new': "blocks s' (?P + span ?xs) mid' (?P + span ?xs + span mid)"
    by (simp only: B')
  have fr': "\<And>x. x < ?P + span ?xs - 4 \<or> ?P + span ?xs + span mid - 4 \<le> x
      \<Longrightarrow> mem s' x = mem s x"
    by (simp only: B' fr)
  from same have reg: "mem_start_brk s' = mem_start_brk s" "mem_brk s \<le> mem_brk s'" by simp_all
  from blocks_replace[OF old new' fr' reg]
  have blk: "blocks s' ?P (?xs @ mid' @ ys) (mem_brk s)" .
  from old have "blocks s (B + span mid) ys (mem_brk s)"
    by (simp only: blocks_append B')
  from blocks_end[OF this] blocks_span_nonneg[OF this] have le: "B + span mid \<le> mem_brk s"
    by simp
  have "load32 (mem s') (mem_brk s - 4) = load32 (mem s) (mem_brk s - 4)"
  proof (rule load32_cong)
    fix x assume "mem_brk s - 4 \<le> x"
    with le have "B + span mid - 4 \<le> x" by simp
    then show "mem s' x = mem s x" by (simp add: fr)
  qed
  with lay blk same show ?thesis by (simp add: heap_lay_def)
qed

lemma retag_lay:
  assumes lay: "heap_lay s (xs @ mid @ ys)" and ne: "mid \<noteq> []"
    and B: "B = mem_start_brk s + 16 + span xs"
    and s': "mem s' = retag (mem s) B (span mid) a" "mem_start_brk s' = mem_start_brk s"
      "mem_brk s' = mem_brk s" "mem_max_addr s' = mem_max_addr s" "heap_listp s' = heap_listp s"
  shows "heap_lay s' (xs @ (span mid, a) # ys)"
proof -
  let ?N = "span mid"
  from heap_layD(4)[OF lay] have "blocks s (mem_start_brk s + 16) (xs @ mid @ ys) (mem_brk s)" .
  then have m: "blocks s B mid (B + ?N)" and y: "blocks s (B + ?N) ys (mem_brk s)"
    and x: "blocks s (mem_start_brk s + 16) xs B"
    by (simp_all add: blocks_append B)
  from blocks_end[OF y] blocks_span_nonneg[OF y] have q: "B + ?N \<le> mem_brk s" by simp
  from blocks_end[OF x] blocks_span_nonneg[OF x] have p: "mem_start_brk s + 16 \<le> B" by simp
  from heap_layD(6,7)[OF lay] q p have N: "?N < 2 ^ 32" by simp
  from blocks_span_ge[OF m ne] have N8: "8 \<le> ?N" .
  from blocks_span_dvd[OF m] have Nd: "?N mod 8 = 0" .
  have ih: "in_heap s (B - 4) ?N" using p q by (simp add: in_heap_def)
  from tagged_retag[OF N8 N Nd ih, of a]
  have "tagged s' B ?N a"
    by (simp add: tagged_def in_heap_def s')
  then have new: "blocks s' B [(?N, a)] (B + ?N)" by simp
  have fr: "\<And>x. x < B - 4 \<or> B + ?N - 4 \<le> x \<Longrightarrow> mem s' x = mem s x"
    using N8 by (auto simp: s' retag_other)
  from lay_replace[OF lay B new fr s'(2-5)] show ?thesis by simp
qed

lemma rover_merge:
  assumes b: "blocks s P (xs @ mid @ ys) Q" and ne: "mid \<noteq> []"
    and r: "r \<in> set (starts P (xs @ mid @ ys)) \<or> r = Q"
    and B: "B = P + span xs" and N: "N = span mid"
  shows "(if B < r \<and> r < B + N then B else r) \<in> set (starts P (xs @ (N, a) # ys)) \<or>
         (if B < r \<and> r < B + N then B else r) = Q"
proof -
  from b have x: "blocks s P xs B" and m: "blocks s B mid (B + N)" and y: "blocks s (B + N) ys Q"
    by (simp_all add: blocks_append B N)
  from blocks_end[OF y] blocks_span_nonneg[OF y] have q: "B + N \<le> Q" by simp
  have st: "starts P (xs @ (N, a) # ys) = starts P xs @ B # starts (B + N) ys"
    by (simp add: starts_append B)
  from r have "r \<in> set (starts P xs) \<or> r \<in> set (starts B mid) \<or> r \<in> set (starts (B + N) ys) \<or> r = Q"
    by (auto simp: starts_append B N)
  then consider "r \<in> set (starts P xs)" | "r \<in> set (starts B mid)" | "r \<in> set (starts (B + N) ys)"
    | "r = Q" by blast
  then show ?thesis
  proof cases
    case 1
    from starts_bounds[OF x 1] have "r < B" by simp
    with 1 show ?thesis by (simp add: st)
  next
    case 2
    from starts_bounds[OF m 2] have "B \<le> r" "r < B + N" by simp_all
    then show ?thesis by (auto simp: st)
  next
    case 3
    from starts_bounds[OF y 3] have "B + N \<le> r" by simp
    with 3 show ?thesis by (simp add: st)
  next
    case 4
    with q show ?thesis by simp
  qed
qed

text \<open>Replacing the blocks \<open>mid\<close> by one block with the same extent, and moving the cursor to
  it when it pointed inside, keeps the layout and keeps the cursor at a block.\<close>

lemma merge_ok:
  assumes lay: "heap_lay s (xs @ mid @ ys)" and ne: "mid \<noteq> []"
    and rok: "rover_ok s (xs @ mid @ ys)"
    and B: "B = mem_start_brk s + 16 + span xs" and N: "N = span mid"
    and s': "s' = s\<lparr>mem := retag (mem s) B N a,
                   rover := (if B < rover s \<and> rover s < B + N then B else rover s)\<rparr>"
  shows "heap_lay s' (xs @ (N, a) # ys) \<and> rover_ok s' (xs @ (N, a) # ys)"
proof
  show "heap_lay s' (xs @ (N, a) # ys)"
    unfolding N by (rule retag_lay[OF lay ne B]) (simp_all add: s' N)
  let ?P = "mem_start_brk s + 8"
  from lay have b: "blocks s ?P (((8, True) # xs) @ mid @ ys) (mem_brk s)"
    by (simp add: heap_lay_def)
  from rok have r: "rover s \<in> set (starts ?P (((8, True) # xs) @ mid @ ys)) \<or> rover s = mem_brk s"
    by (simp add: rover_ok_def)
  have B': "B = ?P + span ((8, True) # xs)" by (simp add: B)
  from rover_merge[OF b ne r B' N, of a]
  show "rover_ok s' (xs @ (N, a) # ys)"
    by (simp add: rover_ok_def s')
qed

subsection \<open>Coalescing keeps the heap well-formed\<close>

lemma lives_append: "lives p (xs @ ys) = lives p xs \<union> lives (p + span xs) ys"
  by (induction xs arbitrary: p) (auto simp: add.assoc)

lemma naf_mid:
  "no_adj_free (xs @ (N, False) # ys) \<longleftrightarrow>
     no_adj_free xs \<and> no_adj_free ys \<and> (xs = [] \<or> snd (last xs)) \<and> (ys = [] \<or> snd (hd ys))"
  by (auto simp: naf_append naf_Cons)

lemma naf_snoc:
  "no_adj_free (xs @ [(n, False)]) \<longleftrightarrow> no_adj_free xs \<and> (xs = [] \<or> snd (last xs))"
  by (auto simp: naf_append)

lemma around_lay:
  assumes lay: "heap_lay s (xs @ (n, False) # ys)"
    and bp: "bp = mem_start_brk s + 16 + span xs"
  shows "around s bp (fst (prevb xs)) (snd (prevb xs)) n (fst (nextb ys)) (snd (nextb ys))"
proof -
  let ?P = "mem_start_brk s + 16"
  note d = heap_layD[OF lay]
  from d(4) have x: "blocks s ?P xs bp" and c: "tagged s bp n False"
    and y: "blocks s (bp + n) ys (mem_brk s)"
    by (simp_all add: blocks_append bp)
  from blocks_end[OF x] blocks_span_nonneg[OF x] have xb: "?P \<le> bp" "0 \<le> span xs" by simp_all
  from blocks_end[OF y] blocks_span_nonneg[OF y] have yb: "bp + n \<le> mem_brk s" "0 \<le> span ys"
    "mem_brk s = bp + n + span ys" by simp_all
  from c have n8: "8 \<le> n" by (simp add: tagged_def)
  have prev: "tagged s (bp - fst (prevb xs)) (fst (prevb xs)) (snd (prevb xs))
      \<and> fst (prevb xs) \<le> span xs + 8"
  proof (cases xs rule: rev_cases)
    case Nil
    with d(3) bp show ?thesis by (simp add: prevb_def add.commute)
  next
    case (snoc zs z)
    obtain pn pa where z: "z = (pn, pa)" by (cases z)
    from x snoc z have "tagged s (?P + span zs) pn pa" and "blocks s ?P zs (?P + span zs)"
      by (simp_all add: blocks_append)
    with blocks_span_nonneg[of s ?P zs] snoc z bp show ?thesis
      by (simp add: prevb_def add.assoc)
  qed
  have nxt: "load32 (mem s) (bp + n - 4) = tag (fst (nextb ys)) (snd (nextb ys)) \<and>
      0 \<le> fst (nextb ys) \<and> fst (nextb ys) mod 8 = 0 \<and> fst (nextb ys) \<le> span ys \<and>
      (\<not> snd (nextb ys) \<longrightarrow> tagged s (bp + n) (fst (nextb ys)) False)"
  proof (cases ys)
    case Nil
    with y have "mem_brk s = bp + n" by simp
    with d(5) Nil show ?thesis by (simp add: nextb_def)
  next
    case (Cons z zs)
    obtain nn na where z: "z = (nn, na)" by (cases z)
    from y Cons z have t: "tagged s (bp + n) nn na" and r: "blocks s (bp + n + nn) zs (mem_brk s)"
      by simp_all
    from blocks_span_nonneg[OF r] t Cons z show ?thesis
      by (auto simp: nextb_def tagged_def)
  qed
  have ih: "in_heap s (bp + n - 4) 4" using xb yb n8 by (simp add: in_heap_def)
  have "fst (prevb xs) + n + fst (nextb ys) < 2 ^ 32"
    using prev nxt d(6,7,8) xb by simp
  with prev c nxt ih show ?thesis by (simp add: around_def)
qed

text \<open>\<^verbatim>\<open>coalesce\<close> on a free block of a well-formed heap, where no other two neighbours are
  both free, returns and yields a heap that satisfies the invariant; the block it returns
  is free and at least as large, and the allocated blocks are the same.\<close>

lemma coalesce_ok:
  assumes lay: "heap_lay s (xs @ (n, False) # ys)"
    and rok: "rover_ok s (xs @ (n, False) # ys)"
    and nx: "no_adj_free xs" and ny: "no_adj_free ys"
    and bp: "bp = mem_start_brk s + 16 + span xs"
  shows "\<exists>xs' N ys' m v.
      coalesce bp s = Inr (mem_start_brk s + 16 + span xs', s\<lparr>mem := m, rover := v\<rparr>) \<and>
      heap_ok (s\<lparr>mem := m, rover := v\<rparr>) (xs' @ (N, False) # ys') \<and> n \<le> N \<and>
      lives (mem_start_brk s + 16) (xs' @ (N, False) # ys')
        = lives (mem_start_brk s + 16) (xs @ (n, False) # ys)"
proof -
  let ?P = "mem_start_brk s + 16"
  obtain pn pa where p: "prevb xs = (pn, pa)" by (cases "prevb xs")
  obtain nn na where q: "nextb ys = (nn, na)" by (cases "nextb ys")
  from around_lay[OF lay bp] p q have ar: "around s bp pn pa n nn na" by simp
  note cs = coalesce_spec[OF ar]
  from ar have sz: "8 \<le> pn" "0 \<le> nn" by (auto simp: around_def tagged_def)
  have xs0: "\<not> pa \<Longrightarrow> \<exists>zs. xs = zs @ [(pn, False)]"
    using p by (cases xs rule: rev_cases) (auto simp: prevb_def)
  have ys0: "\<not> na \<Longrightarrow> \<exists>zs. ys = (nn, False) # zs"
    using q by (cases ys) (auto simp: nextb_def)
  have xa: "pa \<Longrightarrow> xs = [] \<or> snd (last xs)"
    using p by (auto simp: prevb_def split: if_splits)
  have ya: "na \<Longrightarrow> ys = [] \<or> snd (hd ys)"
    using q by (auto simp: nextb_def split: if_splits)
  have s_eq: "s\<lparr>mem := mem s, rover := rover s\<rparr> = s" by simp
  show ?thesis
  proof (cases "pa \<and> na")
    case True
    with cs have c: "coalesce bp s = Inr (bp, s)" by simp
    from True xa ya nx ny have "no_adj_free (xs @ (n, False) # ys)" by (simp add: naf_mid)
    with lay rok have "heap_ok s (xs @ (n, False) # ys)" by (simp add: heap_ok_def)
    with c bp s_eq show ?thesis by (metis order_refl)
  next
    case False
    define zs where "zs = (if pa then xs else butlast xs)"
    define ws where "ws = (if na then ys else tl ys)"
    define mid where "mid = (if pa then [] else [(pn, False)]) @ [(n, False)]
        @ (if na then [] else [(nn, False)])"
    have split: "xs @ (n, False) # ys = zs @ mid @ ws"
      using xs0 ys0 by (auto simp: zs_def ws_def mid_def)
    have ne: "mid \<noteq> []" by (simp add: mid_def)
    have tz: "span zs = (if pa then span xs else span xs - pn)"
      using xs0 by (auto simp: zs_def)
    define B where "B = (if pa then bp else bp - pn)"
    define N where "N = (if pa then 0 else pn) + n + (if na then 0 else nn)"
    have B: "B = ?P + span zs" by (simp add: B_def tz bp)
    have N: "N = span mid" by (simp add: N_def mid_def)
    define s' where "s' = s\<lparr>mem := retag (mem s) B N False,
        rover := (if B < rover s \<and> rover s < B + N then B else rover s)\<rparr>"
    from cs False have c: "coalesce bp s = Inr (B, s')"
      by (simp add: B_def N_def s'_def)
    from merge_ok[OF lay[unfolded split] ne rok[unfolded split] B N s'_def]
    have l: "heap_lay s' (zs @ (N, False) # ws)" and r: "rover_ok s' (zs @ (N, False) # ws)"
      by simp_all
    have nz: "no_adj_free zs \<and> (zs = [] \<or> snd (last zs))"
    proof (cases pa)
      case True
      with xa nx show ?thesis by (simp add: zs_def)
    next
      case False
      with xs0 obtain us where "xs = us @ [(pn, False)]" by blast
      with nx False show ?thesis by (simp add: zs_def naf_snoc)
    qed
    have nw: "no_adj_free ws \<and> (ws = [] \<or> snd (hd ws))"
    proof (cases na)
      case True
      with ya ny show ?thesis by (simp add: ws_def)
    next
      case False
      with ys0 obtain us where "ys = (nn, False) # us" by blast
      with ny False show ?thesis by (auto simp: ws_def naf_Cons)
    qed
    from nz nw have naf: "no_adj_free (zs @ (N, False) # ws)" by (simp add: naf_mid)
    have lv: "lives ?P (zs @ (N, False) # ws) = lives ?P (xs @ (n, False) # ys)"
      unfolding split by (simp add: lives_append N mid_def add.assoc)
    have nN: "n \<le> N" using sz by (simp add: N_def)
    from l naf r have "heap_ok s' (zs @ (N, False) # ws)" by (simp add: heap_ok_def)
    with c B nN lv show ?thesis unfolding s'_def by blast
  qed
qed

subsection \<open>Deallocation\<close>

lemma mm_free_mark:
  assumes t: "tagged s p n a" and p: "p \<noteq> NULL"
  shows "mm_free p s = bnd (coalesce p) (\<lambda>_. ret ()) (s\<lparr>mem := retag (mem s) p n False\<rparr>)"
proof -
  from t have c: "0 \<le> n" "n < 2 ^ 32" "8 dvd n" "8 \<le> n"
    and ci: "mem_start_brk s \<le> p - 4" "p - 4 + n \<le> mem_brk s"
    and ch: "load32 (mem s) (p - 4) = tag n a"
    by (auto simp: tagged_def in_heap_def mod_eq_0_iff_dvd)
  from c have c64: "n < 2 ^ 64" by simp
  show ?thesis using c c64 ci p
    by (simp add: mm_free_def sym_defs run_simps in_heap_def ch uint_wi_32 uint_wi_64 Let_def
          tag_size ucast_wi_32_64 ucast_pack0 load_store_same load_store_other retag_def)
qed

lemma starts_flag: "starts P (xs @ (n, a) # ys) = starts P (xs @ (n, b) # ys)"
  by (simp add: starts_append)

text \<open>\<^verbatim>\<open>mm_free\<close> on an allocated block returns and keeps the invariant; the allocated blocks
  are the same but for the block freed.\<close>

lemma mm_free_ok:
  assumes ok: "heap_ok s (xs @ (n, True) # ys)"
    and p: "p = mem_start_brk s + 16 + span xs"
  shows "\<exists>bs' m v. mm_free p s = Inr ((), s\<lparr>mem := m, rover := v\<rparr>) \<and>
      heap_ok (s\<lparr>mem := m, rover := v\<rparr>) bs' \<and>
      lives (mem_start_brk s + 16) (xs @ (n, True) # ys)
        = insert (p, n) (lives (mem_start_brk s + 16) bs')"
proof -
  let ?P = "mem_start_brk s + 16"
  let ?s1 = "s\<lparr>mem := retag (mem s) p n False\<rparr>"
  from ok have lay: "heap_lay s (xs @ [(n, True)] @ ys)"
    and naf: "no_adj_free (xs @ (n, True) # ys)"
    and rok: "rover_ok s (xs @ (n, True) # ys)"
    by (simp_all add: heap_ok_def)
  note d = heap_layD[OF lay]
  from d(4) have x: "blocks s ?P xs p" and t: "tagged s p n True"
    by (simp_all add: blocks_append p)
  from blocks_end[OF x] blocks_span_nonneg[OF x] d(1) have p0: "p \<noteq> NULL" by simp
  from naf have nx: "no_adj_free xs" and ny: "no_adj_free ys"
    by (simp_all add: naf_append naf_Cons)
  have lay1: "heap_lay ?s1 (xs @ (n, False) # ys)"
    using retag_lay[OF lay _ p, of ?s1 False] by simp
  from rok have rok1: "rover_ok ?s1 (xs @ (n, False) # ys)"
    unfolding rover_ok_def using starts_flag[of "mem_start_brk s + 8" "(8, True) # xs" n True ys False]
    by simp
  have p1: "p = mem_start_brk ?s1 + 16 + span xs" by (simp add: p)
  from coalesce_ok[OF lay1 rok1 nx ny p1] obtain xs' N ys' m v where
    c: "coalesce p ?s1 = Inr (?P + span xs', ?s1\<lparr>mem := m, rover := v\<rparr>)"
    and ok': "heap_ok (?s1\<lparr>mem := m, rover := v\<rparr>) (xs' @ (N, False) # ys')"
    and lv: "lives ?P (xs' @ (N, False) # ys') = lives ?P (xs @ (n, False) # ys)"
    by auto
  have e: "?s1\<lparr>mem := m, rover := v\<rparr> = s\<lparr>mem := m, rover := v\<rparr>" by simp
  from mm_free_mark[OF t p0] c
  have "mm_free p s = Inr ((), s\<lparr>mem := m, rover := v\<rparr>)"
    by (simp add: bnd_def ret_def)
  moreover have "lives ?P (xs @ (n, True) # ys) = insert (p, n) (lives ?P (xs' @ (N, False) # ys'))"
    unfolding lv by (simp add: lives_append p)
  ultimately show ?thesis using ok' unfolding e by blast
qed

subsection \<open>The search on a well-formed heap\<close>

lemma tagged_reads:
  assumes "tagged s p n a"
  shows "NEXT_BLKP p s = Inr (p + n, s)" and "GET (HDRP p) s = Inr (tag n a, s)"
proof -
  from assms have c: "0 \<le> n" "n < 2 ^ 32" "8 dvd n" "8 \<le> n"
    and ci: "mem_start_brk s \<le> p - 4" "p - 4 + n \<le> mem_brk s"
    and ch: "load32 (mem s) (p - 4) = tag n a"
    by (auto simp: tagged_def in_heap_def mod_eq_0_iff_dvd)
  show "NEXT_BLKP p s = Inr (p + n, s)" using c ci
    by (simp add: sym_defs run_simps in_heap_def ch uint_wi_32 tag_size)
  show "GET (HDRP p) s = Inr (tag n a, s)" using c ci
    by (simp add: sym_defs run_simps in_heap_def ch)
qed

lemma blocks_chain: "blocks s p bs q \<Longrightarrow> chain s p (starts p bs) q"
proof (induction bs arbitrary: p)
  case Nil
  then show ?case by simp
next
  case (Cons b bs)
  obtain n a where b: "b = (n, a)" by (cases b)
  from Cons.prems b have t: "tagged s p n a" and r: "blocks s (p + n) bs q" by simp_all
  from t have "8 \<le> n" by (simp add: tagged_def)
  with tagged_reads(1)[OF t] Cons.IH[OF r] b show ?case by simp
qed

lemma find_SomeD: "find P xs = Some x \<Longrightarrow> x \<in> set xs \<and> P x"
  by (induction xs) (auto split: if_splits)

lemma fits_tagged:
  assumes "tagged s p n a"
  shows "fits s asize p \<longleftrightarrow> \<not> a \<and> uint asize \<le> n"
proof -
  from assms have c: "0 \<le> n" "n < 2 ^ 32" "8 dvd n" "n < 2 ^ 64"
    by (auto simp: tagged_def mod_eq_0_iff_dvd)
  have "asize \<le> word_of_int n \<longleftrightarrow> uint asize \<le> n"
    using c by (simp add: word_le_def uint_wi_64)
  then show ?thesis using c tagged_reads(2)[OF assms]
    by (simp add: fits_def tag_size tag_alloc ucast_wi_32_64)
qed

lemma fits_block:
  assumes b: "blocks s P bs Q" and x: "x \<in> set (starts P bs)" and f: "fits s asize x"
  shows "\<exists>xs c ys. bs = xs @ (c, False) # ys \<and> x = P + span xs \<and> uint asize \<le> c"
proof -
  from starts_split[OF x] obtain xs n a ys where s: "bs = xs @ (n, a) # ys" "x = P + span xs"
    by blast
  from b s have "tagged s x n a" by (simp add: blocks_append)
  from fits_tagged[OF this, of asize] f have "\<not> a" "uint asize \<le> n" by simp_all
  with s show ?thesis by blast
qed

lemma rover_split:
  assumes b: "blocks s P bs Q" and r: "r \<in> set (starts P bs) \<or> r = Q"
  shows "\<exists>us vs. bs = us @ vs \<and> r = P + span us"
proof -
  from r show ?thesis
  proof
    assume "r \<in> set (starts P bs)"
    from starts_split[OF this] show ?thesis by blast
  next
    assume "r = Q"
    with blocks_end[OF b] have "bs = bs @ [] \<and> r = P + span bs" by simp
    then show ?thesis by blast
  qed
qed

text \<open>On a well-formed heap the search terminates: it returns \<open>NULL\<close> and leaves the cursor at
  the epilogue, or it returns a free block of the list that is large enough; it changes
  the cursor only.\<close>

lemma find_fit_ok:
  assumes lay: "heap_lay s bs" and rok: "rover_ok s bs"
  shows "\<exists>r v. find_fit asize s = Some (Inr (r, s\<lparr>rover := v\<rparr>)) \<and> rover_ok (s\<lparr>rover := v\<rparr>) bs \<and>
     ((r = NULL \<and> v = mem_brk s) \<or>
      (\<exists>xs c ys. bs = xs @ (c, False) # ys \<and> r = mem_start_brk s + 16 + span xs \<and>
          uint asize \<le> c))"
proof -
  let ?P = "mem_start_brk s + 8"
  let ?all = "(8, True) # bs"
  let ?Q = "mem_brk s"
  note d = heap_layD[OF lay]
  from lay have b: "blocks s ?P ?all ?Q" by (simp add: heap_lay_def)
  from rok have r: "rover s \<in> set (starts ?P ?all) \<or> rover s = ?Q" by (simp add: rover_ok_def)
  from rover_split[OF b r] obtain us vs where uv: "?all = us @ vs" "rover s = ?P + span us"
    by blast
  from b have bu: "blocks s ?P us (rover s)" and bv: "blocks s (rover s) vs ?Q"
    unfolding uv by (simp_all add: blocks_append)
  have pre: "chain s (heap_listp s) (starts ?P us) (rover s)"
    using blocks_chain[OF bu] d(2) by simp
  have post: "chain s (rover s) (starts (rover s) vs) ?Q"
    using blocks_chain[OF bv] .
  have st: "starts ?P ?all = starts ?P us @ starts (rover s) vs"
    unfolding uv by (simp add: starts_append)
  from d(8) blocks_span_nonneg[OF d(4)] have "mem_start_brk s \<le> ?Q - 4" by simp
  then have epi: "GET_SIZE (HDRP ?Q) s = Inr (0, s)"
    using tag_size[of 0 True]
    by (simp add: sym_defs run_simps in_heap_def d(5))
  note ff = find_fit_chain[OF pre post epi, of asize]
  have found: "\<exists>xs c ys. bs = xs @ (c, False) # ys \<and> x = mem_start_brk s + 16 + span xs \<and>
          uint asize \<le> c" if x: "x \<in> set (starts ?P ?all)" and f: "fits s asize x" for x
  proof -
    from fits_block[OF b x f] obtain xs c ys where
      s: "?all = xs @ (c, False) # ys" "x = ?P + span xs" "uint asize \<le> c" by blast
    from s(1) obtain zs where "xs = (8, True) # zs" by (cases xs) auto
    with s have "bs = zs @ (c, False) # ys \<and> x = mem_start_brk s + 16 + span zs \<and> uint asize \<le> c"
      by simp
    then show ?thesis by blast
  qed
  show ?thesis
  proof (cases "find (fits s asize) (starts (rover s) vs)")
    case (Some x)
    from find_SomeD[OF Some] have x: "x \<in> set (starts ?P ?all)" and f: "fits s asize x"
      unfolding st by simp_all
    from ff Some have "find_fit asize s = Some (Inr (x, s\<lparr>rover := x\<rparr>))"
      by (simp add: next_fit_def)
    moreover from x have "rover_ok (s\<lparr>rover := x\<rparr>) bs" by (simp add: rover_ok_def)
    ultimately show ?thesis using found[OF x f] by blast
  next
    case None
    have rk: "rover_ok (s\<lparr>rover := ?Q\<rparr>) bs" by (simp add: rover_ok_def)
    show ?thesis
    proof (cases "find (fits s asize) (starts ?P us)")
      case (Some x)
      from find_SomeD[OF Some] have x: "x \<in> set (starts ?P ?all)" and f: "fits s asize x"
        unfolding st by simp_all
      from ff None Some have "find_fit asize s = Some (Inr (x, s\<lparr>rover := ?Q\<rparr>))"
        by (simp add: next_fit_def)
      with rk found[OF x f] show ?thesis by blast
    next
      case N2: None
      from ff None N2 have "find_fit asize s = Some (Inr (NULL, s\<lparr>rover := ?Q\<rparr>))"
        by (simp add: next_fit_def)
      with rk show ?thesis by blast
    qed
  qed
qed

subsection \<open>Placement on a well-formed heap\<close>

lemma lives_starts: "(x, m) \<in> lives P bs \<Longrightarrow> x \<in> set (starts P bs)"
  by (induction bs arbitrary: P) (auto split: if_splits)

lemma free_not_live:
  assumes b: "blocks s P (xs @ (c, False) # ys) Q"
  shows "(P + span xs, m) \<notin> lives P (xs @ (c, False) # ys)"
proof
  let ?r = "P + span xs"
  assume "(?r, m) \<in> lives P (xs @ (c, False) # ys)"
  then have "(?r, m) \<in> lives P xs \<or> (?r, m) \<in> lives (?r + c) ys"
    by (simp add: lives_append)
  then show False
  proof
    assume "(?r, m) \<in> lives P xs"
    from lives_starts[OF this] have x: "?r \<in> set (starts P xs)" .
    from b have "blocks s P xs ?r" by (simp add: blocks_append)
    from starts_bounds[OF this x] show False by simp
  next
    assume "(?r, m) \<in> lives (?r + c) ys"
    from lives_starts[OF this] have x: "?r \<in> set (starts (?r + c) ys)" .
    from b have "blocks s (?r + c) ys Q" and "tagged s ?r c False" by (simp_all add: blocks_append)
    with starts_bounds[OF _ x] show False by (simp add: tagged_def)
  qed
qed

lemma starts_split_block:
  "set (starts P (xs @ (c, a) # ys)) \<subseteq> set (starts P (xs @ (x, b) # (c - x, d) # ys))"
  by (auto simp: starts_append algebra_simps)

text \<open>\<^verbatim>\<open>place\<close> on a free block of the list that is large enough keeps the invariant; the block
  at \<open>r\<close> becomes allocated, with at least \<open>asize\<close> bytes.\<close>

lemma place_ok:
  assumes lay: "heap_lay s (xs @ (c, False) # ys)"
    and naf: "no_adj_free (xs @ (c, False) # ys)"
    and rok: "rover_ok s (xs @ (c, False) # ys)"
    and r: "r = mem_start_brk s + 16 + span xs"
    and a8: "8 \<le> uint asize" "uint asize mod 8 = 0" and ac: "uint asize \<le> c"
  shows "\<exists>m c' ys'. place r asize s = Inr ((), s\<lparr>mem := m\<rparr>) \<and>
      heap_ok (s\<lparr>mem := m\<rparr>) (xs @ (c', True) # ys') \<and> uint asize \<le> c' \<and>
      lives (mem_start_brk s + 16) (xs @ (c', True) # ys')
        = insert (r, c') (lives (mem_start_brk s + 16) (xs @ (c, False) # ys))"
proof -
  let ?P = "mem_start_brk s + 16"
  let ?a = "uint asize"
  note d = heap_layD[OF lay]
  from d(4) have t: "tagged s r c False" by (simp add: blocks_append r)
  from place_effect[OF t a8 ac] obtain m where
    p: "place r asize s = Inr ((), s\<lparr>mem := m\<rparr>)"
    and fr: "\<And>x. x < r - 4 \<or> r + c - 4 \<le> x \<Longrightarrow> m x = mem s x"
    and tg: "if 16 \<le> c - ?a
            then tagged (s\<lparr>mem := m\<rparr>) r ?a True \<and> tagged (s\<lparr>mem := m\<rparr>) (r + ?a) (c - ?a) False
            else tagged (s\<lparr>mem := m\<rparr>) r c True"
    by blast
  let ?s = "s\<lparr>mem := m\<rparr>"
  define mid' where "mid' = (if 16 \<le> c - ?a then [(?a, True), (c - ?a, False)] else [(c, True)])"
  have new: "blocks ?s r mid' (r + span [(c, False)])"
    using tg by (auto simp: mid'_def)
  have fr': "\<And>x. x < r - 4 \<or> r + span [(c, False)] - 4 \<le> x \<Longrightarrow> mem ?s x = mem s x"
    using fr by simp
  have lay0: "heap_lay s (xs @ [(c, False)] @ ys)" using lay by simp
  from lay_replace[OF lay0 r new fr']
  have lay': "heap_lay ?s (xs @ mid' @ ys)" by simp
  from naf have n: "no_adj_free xs" "no_adj_free ys" "ys = [] \<or> snd (hd ys)"
    by (simp_all add: naf_mid)
  have naf': "no_adj_free (xs @ mid' @ ys)"
    using n by (auto simp: mid'_def naf_append naf_Cons)
  have st: "set (starts (mem_start_brk s + 8) ((8, True) # xs @ (c, False) # ys))
      \<subseteq> set (starts (mem_start_brk s + 8) ((8, True) # xs @ mid' @ ys))"
  proof (cases "16 \<le> c - ?a")
    case True
    then have "mid' = [(?a, True), (c - ?a, False)]" by (simp add: mid'_def)
    with starts_split_block[of "mem_start_brk s + 8" "(8, True) # xs" c False ys ?a True False]
    show ?thesis by (simp del: starts.simps)
  next
    case False
    then have "mid' = [(c, True)]" by (simp add: mid'_def)
    with starts_flag[of "mem_start_brk s + 8" "(8, True) # xs" c False ys True]
    show ?thesis by (simp del: starts.simps)
  qed
  from rok st have rok': "rover_ok ?s (xs @ mid' @ ys)"
    by (auto simp: rover_ok_def)
  define c' where "c' = (if 16 \<le> c - ?a then ?a else c)"
  define ys' where "ys' = (if 16 \<le> c - ?a then (c - ?a, False) # ys else ys)"
  have e: "xs @ mid' @ ys = xs @ (c', True) # ys'"
    by (simp add: mid'_def c'_def ys'_def)
  have lv: "lives ?P (xs @ (c', True) # ys') = insert (r, c') (lives ?P (xs @ (c, False) # ys))"
    by (simp add: lives_append c'_def ys'_def r add.assoc)
  have "?a \<le> c'" using ac by (simp add: c'_def)
  moreover from lay' naf' rok' have "heap_ok ?s (xs @ (c', True) # ys')"
    unfolding e by (simp add: heap_ok_def)
  ultimately show ?thesis using p lv by blast
qed

subsection \<open>Heap extension\<close>

lemma even_words:
  assumes "8 dvd uint (e :: size_t)"
  shows "(e div 4) mod 2 = 0" and "(e div 4) * 4 = e"
proof -
  from assms obtain k where k: "uint e = 8 * k" by (auto simp: dvd_def)
  have "uint ((e div 4) mod 2) = 0" by (simp add: uint_mod uint_div k)
  then show "(e div 4) mod 2 = 0" by (simp add: uint_0_iff)
  have "uint ((e div 4) * 4) = (uint e div 4 * 4) mod 2 ^ 64"
    by (simp add: uint_word_ariths uint_div)
  also have "\<dots> = uint e mod 2 ^ 64" by (simp add: k)
  also have "\<dots> = uint e" using uint_lt2p[of e] by simp
  finally show "(e div 4) * 4 = e" by (simp add: word_uint_eq_iff)
qed

lemma bnd_sbrk: "bnd (mem_sbrk n) f s =
   (if mem_brk s + n > mem_max_addr s then f (- 1) s
    else f (mem_brk s) (s\<lparr>mem_brk := mem_brk s + n\<rparr>))"
  by (simp add: bnd_def mem_sbrk_def)

lemma in_heap_brk: "in_heap (s\<lparr>mem_brk := b\<rparr>) p n = (mem_start_brk s \<le> p \<and> p + n \<le> b)"
  by (simp add: in_heap_def)

text \<open>\<^verbatim>\<open>extend_heap\<close> for an even number of words: it fails and changes nothing when the
  provider has no room; otherwise it turns the old epilogue header into the header of a new
  free block, writes the new epilogue header, and calls \<^verbatim>\<open>coalesce\<close>.\<close>

lemma extend_heap_run:
  assumes lay: "heap_lay s bs" and e: "8 dvd uint e" "16 \<le> uint e"
  shows "extend_heap (e div 4) s =
     (if mem_brk s + uint e > mem_max_addr s then Inr (NULL, s)
      else coalesce (mem_brk s)
             (s\<lparr>mem_brk := mem_brk s + uint e,
                mem := store32 (retag (mem s) (mem_brk s) (uint e) False)
                         (mem_brk s + uint e - 4) (tag 0 True)\<rparr>))"
proof (cases "mem_brk s + uint e > mem_max_addr s")
  case True
  then show ?thesis
    by (simp add: extend_heap_def even_words[OF e(1)] bnd_sbrk ret_def)
next
  case False
  note d = heap_layD[OF lay]
  define E where "E = uint e"
  have ew: "e = word_of_int E" by (simp add: E_def)
  from d(8) blocks_span_nonneg[OF d(4)] have b: "mem_start_brk s + 16 \<le> mem_brk s" by simp
  from False d(7) b have E32: "E < 2 ^ 32" by (simp add: E_def)
  from e have E: "8 dvd E" "16 \<le> E" "0 \<le> E" by (simp_all add: E_def)
  from d(1) b have nz: "mem_brk s \<noteq> - 1" by simp
  have ue: "uint (word_of_int E :: size_t) = E" using ew E_def by simp
  show ?thesis using False E E32 b nz
    unfolding E_def[symmetric]
    apply (simp add: extend_heap_def even_words[OF e(1)] bnd_sbrk E_def[symmetric])
    apply (simp add: ew sym_defs run_simps in_heap_def uint_wi_32 ue
          tag_size ucast_pack0 ucast_pack1 load_store_same load_store_other retag_def)
    done
qed

lemma extend_lay:
  assumes lay: "heap_lay s bs" and e: "8 dvd E" "16 \<le> E"
    and room: "mem_brk s + E \<le> mem_max_addr s"
    and s': "s' = s\<lparr>mem_brk := mem_brk s + E,
                   mem := store32 (retag (mem s) (mem_brk s) E False)
                            (mem_brk s + E - 4) (tag 0 True)\<rparr>"
  shows "heap_lay s' (bs @ [(E, False)])"
proof -
  let ?P = "mem_start_brk s + 8"
  let ?Q = "mem_brk s"
  note d = heap_layD[OF lay]
  from lay have b: "blocks s ?P ((8, True) # bs) ?Q" by (simp add: heap_lay_def)
  from d(8) blocks_span_nonneg[OF d(4)] have q: "mem_start_brk s + 16 \<le> ?Q" by simp
  from room d(7) q have E32: "E < 2 ^ 32" by simp
  have m: "\<And>x. x < ?Q - 4 \<Longrightarrow> mem s' x = mem s x"
    using e by (simp add: s' store32_other retag_other)
  have reg: "mem_start_brk s' = mem_start_brk s" "mem_brk s \<le> mem_brk s'"
    using e by (simp_all add: s')
  have old: "blocks s' ?P ((8, True) # bs) ?Q"
    by (rule blocks_frame[OF b _ reg]) (simp add: m)
  let ?s1 = "s\<lparr>mem_brk := ?Q + E\<rparr>"
  have ih: "in_heap ?s1 (?Q - 4) E" using q by (simp add: in_heap_def)
  have E8: "8 \<le> E" "E mod 8 = 0" using e by (simp_all add: mod_eq_0_iff_dvd)
  from tagged_retag[OF E8(1) E32 E8(2) ih, of False]
  have t1: "tagged (?s1\<lparr>mem := retag (mem s) ?Q E False\<rparr>) ?Q E False" by simp
  have new: "tagged s' ?Q E False"
    by (rule tagged_frame[OF t1]) (use e in \<open>simp_all add: s' store32_other\<close>)
  have ep: "load32 (mem s') (mem_brk s' - 4) = tag 0 True"
    by (simp add: s' load_store_same)
  have "?Q = ?P + span ((8, True) # bs)" using d(8) by simp
  then have "blocks s' ?P (((8, True) # bs) @ [(E, False)]) (?Q + E)"
    using old new by (simp only: blocks_append) simp
  then have "blocks s' ?P ((8, True) # bs @ [(E, False)]) (mem_brk s')"
    by (simp add: s')
  with ep d room show ?thesis by (simp add: heap_lay_def s')
qed

text \<open>\<^verbatim>\<open>extend_heap\<close> keeps the invariant, and when it succeeds it returns a free block of at
  least the size asked for.\<close>

lemma extend_heap_ok:
  assumes ok: "heap_ok s bs" and e: "8 dvd uint e" "16 \<le> uint e"
  shows "\<exists>r s'. extend_heap (e div 4) s = Inr (r, s') \<and> mem_start_brk s' = mem_start_brk s \<and>
     ((r = NULL \<and> s' = s) \<or>
      (\<exists>xs N ys. heap_ok s' (xs @ (N, False) # ys) \<and> r = mem_start_brk s + 16 + span xs \<and>
          uint e \<le> N \<and>
          lives (mem_start_brk s + 16) (xs @ (N, False) # ys) = lives (mem_start_brk s + 16) bs))"
proof (cases "mem_brk s + uint e > mem_max_addr s")
  case True
  from ok have lay: "heap_lay s bs" by (simp add: heap_ok_def)
  from extend_heap_run[OF lay e] True show ?thesis by simp
next
  case False
  let ?P = "mem_start_brk s + 16"
  let ?E = "uint e"
  from ok have lay: "heap_lay s bs" and naf: "no_adj_free bs" and rok: "rover_ok s bs"
    by (simp_all add: heap_ok_def)
  note d = heap_layD[OF lay]
  define s2 where "s2 = s\<lparr>mem_brk := mem_brk s + ?E,
      mem := store32 (retag (mem s) (mem_brk s) ?E False) (mem_brk s + ?E - 4) (tag 0 True)\<rparr>"
  from extend_heap_run[OF lay e] False
  have run: "extend_heap (e div 4) s = coalesce (mem_brk s) s2" by (simp add: s2_def)
  from False have room: "mem_brk s + ?E \<le> mem_max_addr s" by simp
  from extend_lay[OF lay e room s2_def] have lay2: "heap_lay s2 (bs @ (?E, False) # [])" by simp
  have st: "starts (mem_start_brk s + 8) ((8, True) # bs @ [(?E, False)])
      = starts (mem_start_brk s + 8) ((8, True) # bs) @ [mem_brk s]"
    using starts_append[of "mem_start_brk s + 8" "(8, True) # bs" "[(?E, False)]"] d(8)
    by simp
  from rok have rok2: "rover_ok s2 (bs @ (?E, False) # [])"
    unfolding rover_ok_def by (auto simp: s2_def st simp del: starts.simps)
  have bp: "mem_brk s = mem_start_brk s2 + 16 + span bs" using d(8) by (simp add: s2_def)
  from coalesce_ok[OF lay2 rok2 naf _ bp] obtain xs N ys m v where
    c: "coalesce (mem_brk s) s2 = Inr (mem_start_brk s2 + 16 + span xs, s2\<lparr>mem := m, rover := v\<rparr>)"
    and ok': "heap_ok (s2\<lparr>mem := m, rover := v\<rparr>) (xs @ (N, False) # ys)" and N: "?E \<le> N"
    and lv: "lives (mem_start_brk s2 + 16) (xs @ (N, False) # ys)
        = lives (mem_start_brk s2 + 16) (bs @ (?E, False) # [])"
    by auto
  have s2s: "mem_start_brk s2 = mem_start_brk s" by (simp add: s2_def)
  have lv': "lives ?P (xs @ (N, False) # ys) = lives ?P bs"
    using lv by (simp add: s2s lives_append)
  from run c ok' N lv' s2s show ?thesis by auto
qed

subsection \<open>Allocation\<close>

lemma heap_lay_rover: "heap_lay (s\<lparr>rover := v\<rparr>) bs = heap_lay s bs"
  by (simp add: heap_lay_def blocks_mem_eq[of "s\<lparr>rover := v\<rparr>" s] del: blocks.simps)

lemma adjust_size_bounds:
  assumes "sz \<noteq> 0" and "uint sz \<le> 2 ^ 64 - 16"
  shows "16 \<le> uint (adjust_size sz)" and "uint (adjust_size sz) mod 8 = 0"
    and "uint sz + 8 \<le> uint (adjust_size sz)"
proof -
  show "uint (adjust_size sz) mod 8 = 0" by (rule adjust_size_aligned)
  have "16 \<le> uint (adjust_size sz) \<and> uint sz + 8 \<le> uint (adjust_size sz)"
  proof (cases "sz \<le> 8")
    case True
    then have "uint sz \<le> 8" by (simp add: word_le_def)
    with adjust_size_small[OF True] show ?thesis by simp
  next
    case False
    then have 8: "8 < sz" by simp
    then have u: "8 < uint sz" by (simp add: word_less_def)
    from assms(2) have "sz \<le> 18446744073709551600" by (simp add: word_le_def)
    from adjust_size_large[OF 8 this] round_up8_least[of "uint sz + 8"] u
    show ?thesis by simp
  qed
  then show "16 \<le> uint (adjust_size sz)" "uint sz + 8 \<le> uint (adjust_size sz)" by simp_all
qed

lemma uint_max_chunk: "uint (max a CHUNKSIZE) = max (uint a) 4096"
  by (simp add: max_def word_le_def CHUNKSIZE_def)

text \<open>\<^verbatim>\<open>mm_malloc\<close>, for a request of at most \<open>2^64 - 16\<close> bytes, returns and keeps the
  invariant. When it returns \<open>NULL\<close> the blocks are the same; otherwise the block returned
  was not allocated before, is allocated now, and holds the request and 8 bytes of
  overhead.\<close>

lemma mm_malloc_ok:
  assumes ok: "heap_ok s bs" and sz: "uint sz \<le> 2 ^ 64 - 16"
  shows "\<exists>r s'. mm_malloc sz s = Some (Inr (r, s')) \<and> mem_start_brk s' = mem_start_brk s \<and>
     ((r = NULL \<and> heap_ok s' bs) \<or>
      (r \<noteq> NULL \<and> (\<exists>xs c ys. heap_ok s' (xs @ (c, True) # ys) \<and>
          r = mem_start_brk s + 16 + span xs \<and> uint sz + 8 \<le> c \<and>
          lives (mem_start_brk s + 16) (xs @ (c, True) # ys)
            = insert (r, c) (lives (mem_start_brk s + 16) bs) \<and>
          r \<notin> fst ` lives (mem_start_brk s + 16) bs)))"
proof (cases "sz = 0")
  case True
  with ok show ?thesis by (simp add: mm_malloc_def lift_def ret_def)
next
  case False
  let ?P = "mem_start_brk s + 16"
  define asize where "asize = adjust_size sz"
  note a = adjust_size_bounds[OF False sz, folded asize_def]
  from a have a8: "8 \<le> uint asize" by simp
  from ok have lay: "heap_lay s bs" and naf: "no_adj_free bs" and rok: "rover_ok s bs"
    by (simp_all add: heap_ok_def)
  note d = heap_layD[OF lay]
  from find_fit_ok[OF lay rok, of asize] obtain r v where
    ff: "find_fit asize s = Some (Inr (r, s\<lparr>rover := v\<rparr>))"
    and rok1: "rover_ok (s\<lparr>rover := v\<rparr>) bs"
    and res: "(r = NULL \<and> v = mem_brk s) \<or>
      (\<exists>xs c ys. bs = xs @ (c, False) # ys \<and> r = ?P + span xs \<and> uint asize \<le> c)"
    by blast
  let ?s1 = "s\<lparr>rover := v\<rparr>"
  have lay1: "heap_lay ?s1 bs" using lay by (simp add: heap_lay_rover)
  have ok1: "heap_ok ?s1 bs" using lay1 naf rok1 by (simp add: heap_ok_def)
  have placed: "\<exists>xs' c' ys' m. place q asize t = Inr ((), t\<lparr>mem := m\<rparr>) \<and> q \<noteq> NULL \<and>
          heap_ok (t\<lparr>mem := m\<rparr>) (xs' @ (c', True) # ys') \<and>
          q = ?P + span xs' \<and> uint sz + 8 \<le> c' \<and>
          lives ?P (xs' @ (c', True) # ys') = insert (q, c') (lives ?P bs) \<and>
          q \<notin> fst ` lives ?P bs"
    if t: "heap_ok t (xs @ (c, False) # ys)" and q: "q = ?P + span xs" and c: "uint asize \<le> c"
      and st: "mem_start_brk t = mem_start_brk s"
      and lv: "lives ?P (xs @ (c, False) # ys) = lives ?P bs"
    for t xs c ys q
  proof -
    from t have l: "heap_lay t (xs @ (c, False) # ys)" and n: "no_adj_free (xs @ (c, False) # ys)"
      and r: "rover_ok t (xs @ (c, False) # ys)" by (simp_all add: heap_ok_def)
    have q': "q = mem_start_brk t + 16 + span xs" by (simp add: q st)
    from place_ok[OF l n r q' a8 a(2) c] obtain m c' ys' where
      p: "place q asize t = Inr ((), t\<lparr>mem := m\<rparr>)"
      and k: "heap_ok (t\<lparr>mem := m\<rparr>) (xs @ (c', True) # ys')" and c': "uint asize \<le> c'"
      and lv': "lives (mem_start_brk t + 16) (xs @ (c', True) # ys')
        = insert (q, c') (lives (mem_start_brk t + 16) (xs @ (c, False) # ys))"
      by blast
    note dt = heap_layD[OF l]
    from dt(4) have bx: "blocks t (mem_start_brk t + 16) xs q" by (simp add: blocks_append q')
    from blocks_end[OF bx] blocks_span_nonneg[OF bx] dt(1) have q0: "q \<noteq> NULL" by simp
    from free_not_live[OF dt(4)] have "q \<notin> fst ` lives ?P (xs @ (c, False) # ys)"
      by (auto simp: q st)
    with lv have nl: "q \<notin> fst ` lives ?P bs" by simp
    from lv' lv have lv2: "lives ?P (xs @ (c', True) # ys') = insert (q, c') (lives ?P bs)"
      by (simp add: st)
    from a(3) c' have "uint sz + 8 \<le> c'" by simp
    with p k q0 q lv2 nl show ?thesis by blast
  qed
  from res show ?thesis
  proof
    assume "\<exists>xs c ys. bs = xs @ (c, False) # ys \<and> r = ?P + span xs \<and> uint asize \<le> c"
    then obtain xs c ys where b: "bs = xs @ (c, False) # ys" and r: "r = ?P + span xs"
      and c: "uint asize \<le> c" by blast
    from placed[OF ok1[unfolded b] r c] b obtain xs' c' ys' m where
      p: "place r asize ?s1 = Inr ((), ?s1\<lparr>mem := m\<rparr>)" and r0: "r \<noteq> NULL"
      and k: "heap_ok (?s1\<lparr>mem := m\<rparr>) (xs' @ (c', True) # ys')"
      and rest: "r = ?P + span xs'" "uint sz + 8 \<le> c'"
        "lives ?P (xs' @ (c', True) # ys') = insert (r, c') (lives ?P bs)"
        "r \<notin> fst ` lives ?P bs"
      by auto
    from False ff r0 p have "mm_malloc sz s = Some (Inr (r, ?s1\<lparr>mem := m\<rparr>))"
      by (simp add: mm_malloc_def asize_def[symmetric] Let_def obnd_def lift_def bnd_def ret_def)
    with r0 k rest show ?thesis by auto
  next
    assume n: "r = NULL \<and> v = mem_brk s"
    define e where "e = max asize CHUNKSIZE"
    have ue: "uint e = max (uint asize) 4096" by (simp add: e_def uint_max_chunk)
    from a have e8: "8 dvd uint e" "16 \<le> uint e"
      by (auto simp: ue max_def mod_eq_0_iff_dvd)
    from extend_heap_ok[OF ok1 e8]
    have "\<exists>r2 s2. extend_heap (e div 4) ?s1 = Inr (r2, s2) \<and> mem_start_brk s2 = mem_start_brk s \<and>
      ((r2 = NULL \<and> s2 = ?s1) \<or>
        (\<exists>xs N ys. heap_ok s2 (xs @ (N, False) # ys) \<and> r2 = ?P + span xs \<and> uint e \<le> N \<and>
          lives ?P (xs @ (N, False) # ys) = lives ?P bs))"
      by simp
    then obtain r2 s2 where
      x: "extend_heap (e div 4) ?s1 = Inr (r2, s2)" and st: "mem_start_brk s2 = mem_start_brk s"
      and res2: "(r2 = NULL \<and> s2 = ?s1) \<or>
        (\<exists>xs N ys. heap_ok s2 (xs @ (N, False) # ys) \<and> r2 = ?P + span xs \<and> uint e \<le> N \<and>
          lives ?P (xs @ (N, False) # ys) = lives ?P bs)"
      by blast
    from res2 show ?thesis
    proof
      assume z: "r2 = NULL \<and> s2 = ?s1"
      with False ff n x have "mm_malloc sz s = Some (Inr (NULL, ?s1))"
        by (simp add: mm_malloc_def asize_def[symmetric] e_def[symmetric] Let_def obnd_def
            lift_def bnd_def ret_def)
      with ok1 show ?thesis by simp
    next
      assume "\<exists>xs N ys. heap_ok s2 (xs @ (N, False) # ys) \<and> r2 = ?P + span xs \<and> uint e \<le> N \<and>
          lives ?P (xs @ (N, False) # ys) = lives ?P bs"
      then obtain xs N ys where k2: "heap_ok s2 (xs @ (N, False) # ys)"
        and r2: "r2 = ?P + span xs" and N: "uint e \<le> N"
        and lv: "lives ?P (xs @ (N, False) # ys) = lives ?P bs" by blast
      from N ue have c: "uint asize \<le> N" by simp
      from placed[OF k2 r2 c st lv] obtain xs' c' ys' m where
        p: "place r2 asize s2 = Inr ((), s2\<lparr>mem := m\<rparr>)" and r0: "r2 \<noteq> NULL"
        and k: "heap_ok (s2\<lparr>mem := m\<rparr>) (xs' @ (c', True) # ys')"
        and rest: "r2 = ?P + span xs'" "uint sz + 8 \<le> c'"
          "lives ?P (xs' @ (c', True) # ys') = insert (r2, c') (lives ?P bs)"
          "r2 \<notin> fst ` lives ?P bs"
        by auto
      from False ff n x r0 p have "mm_malloc sz s = Some (Inr (r2, s2\<lparr>mem := m\<rparr>))"
        by (simp add: mm_malloc_def asize_def[symmetric] e_def[symmetric] Let_def obnd_def
            lift_def bnd_def ret_def)
      with r0 k rest st show ?thesis by auto
    qed
  qed
qed

subsection \<open>Initialisation and payload writes\<close>

lemma mm_init_fresh:
  assumes "16 \<le> cap" and "0 < base"
  shows "mm_init (fresh base cap m) =
     bnd (extend_heap (CHUNKSIZE div 4)) (\<lambda>bp. if bp = NULL then ret (- 1) else ret 0)
       \<lparr>mem = store32 (store32 (store32 (store32 m base 0) (base + 4) (tag 8 True))
                (base + 8) (tag 8 True)) (base + 12) (tag 0 True),
        mem_start_brk = base, mem_brk = base + 16, mem_max_addr = base + cap,
        heap_listp = base + 8, rover = base + 8, freeHead = 0, firstHead = 0,
        num_freeblocks = 0\<rparr>"
  using assms
  by (simp add: mm_init_def WSIZE_def bnd_sbrk run_simps in_heap_def fresh_def ucast_pack1
        cong: if_cong)

lemma mm_init_small:
  assumes "cap < 16"
  shows "mm_init (fresh base cap m) = Inr (- 1, (fresh base cap m)\<lparr>heap_listp := - 1\<rparr>)"
  using assms
  by (simp add: mm_init_def WSIZE_def bnd_sbrk run_simps in_heap_def fresh_def)

text \<open>A successful \<^verbatim>\<open>mm_init\<close> on an empty region establishes the invariant, with no allocated
  block.\<close>

lemma mm_init_ok:
  assumes i: "mm_init (fresh base cap m) = Inr (0, t)" and base: "0 < base"
    and cap: "cap < 2 ^ 32"
  shows "\<exists>bs. heap_ok t bs \<and> lives (base + 16) bs = {} \<and> mem_start_brk t = base"
proof -
  have c16: "16 \<le> cap"
  proof (rule ccontr)
    assume "\<not> 16 \<le> cap"
    then have "cap < 16" by simp
    from mm_init_small[OF this, of base m] i show False by simp
  qed
  define s1 where "s1 = \<lparr>mem = store32 (store32 (store32 (store32 m base 0) (base + 4) (tag 8 True))
                (base + 8) (tag 8 True)) (base + 12) (tag 0 True),
        mem_start_brk = base, mem_brk = base + 16, mem_max_addr = base + cap,
        heap_listp = base + 8, rover = base + 8, freeHead = 0, firstHead = 0,
        num_freeblocks = 0\<rparr>"
  from mm_init_fresh[OF c16 base, of m] i
  have run: "bnd (extend_heap (CHUNKSIZE div 4)) (\<lambda>bp. if bp = NULL then ret (- 1) else ret 0) s1
      = Inr (0 :: int, t)"
    by (simp add: s1_def)
  have f1: "mem_start_brk s1 = base" "mem_brk s1 = base + 16" "mem_max_addr s1 = base + cap"
    "heap_listp s1 = base + 8" "rover s1 = base + 8"
    by (simp_all add: s1_def)
  have h: "load32 (mem s1) (base + 4) = tag 8 True" "load32 (mem s1) (base + 8) = tag 8 True"
    "load32 (mem s1) (base + 12) = tag 0 True"
    by (simp_all add: s1_def load_store_same load_store_other)
  have t8: "tagged s1 (base + 8) 8 True"
    using h by (simp add: tagged_def in_heap_def f1 add.commute)
  have "heap_lay s1 []"
    using base c16 cap t8 h(3)
    by (simp add: heap_lay_def f1 add.commute)
  then have ok1: "heap_ok s1 []" by (simp add: heap_ok_def rover_ok_def f1)
  have e: "8 dvd uint CHUNKSIZE" "16 \<le> uint CHUNKSIZE" by (simp_all add: CHUNKSIZE_def)
  from extend_heap_ok[OF ok1 e] obtain r s' where
    x: "extend_heap (CHUNKSIZE div 4) s1 = Inr (r, s')" and st: "mem_start_brk s' = mem_start_brk s1"
    and res: "(r = NULL \<and> s' = s1) \<or>
      (\<exists>xs N ys. heap_ok s' (xs @ (N, False) # ys) \<and> r = mem_start_brk s1 + 16 + span xs \<and>
          uint CHUNKSIZE \<le> N \<and>
          lives (mem_start_brk s1 + 16) (xs @ (N, False) # ys) = lives (mem_start_brk s1 + 16) [])"
    by blast
  from run x have rt: "r \<noteq> NULL" "s' = t"
    by (auto simp: bnd_def ret_def split: if_splits)
  from res rt st f1(1) show ?thesis by auto
qed

lemma lives_split:
  "(p, n) \<in> lives P bs \<Longrightarrow> \<exists>xs ys. bs = xs @ (n, True) # ys \<and> p = P + span xs"
proof (induction bs arbitrary: P)
  case Nil
  then show ?case by simp
next
  case (Cons b bs)
  obtain k a where b: "b = (k, a)" by (cases b)
  from Cons.prems b have "(a \<and> p = P \<and> n = k) \<or> (p, n) \<in> lives (P + k) bs"
    by (auto split: if_splits)
  then show ?case
  proof
    assume "a \<and> p = P \<and> n = k"
    with b have "b # bs = [] @ (n, True) # bs \<and> p = P + span []" by simp
    then show ?thesis by blast
  next
    assume "(p, n) \<in> lives (P + k) bs"
    from Cons.IH[OF this] obtain xs ys where "bs = xs @ (n, True) # ys" "p = P + k + span xs"
      by blast
    with b have "b # bs = ((k, a) # xs) @ (n, True) # ys \<and> p = P + span ((k, a) # xs)" by simp
    then show ?thesis by blast
  qed
qed

text \<open>Writing into the payload of an allocated block keeps the invariant.\<close>

lemma payload_write_ok:
  assumes ok: "heap_ok s (xs @ (c, True) # ys)"
    and r: "r = mem_start_brk s + 16 + span xs"
    and fr: "\<And>x. x < r \<or> r + c - 8 \<le> x \<Longrightarrow> m x = mem s x"
  shows "heap_ok (s\<lparr>mem := m\<rparr>) (xs @ (c, True) # ys)"
proof -
  let ?s = "s\<lparr>mem := m\<rparr>"
  from ok have lay: "heap_lay s (xs @ [(c, True)] @ ys)"
    and naf: "no_adj_free (xs @ (c, True) # ys)" and rok: "rover_ok s (xs @ (c, True) # ys)"
    by (simp_all add: heap_ok_def)
  from heap_layD(4)[OF lay] have t: "tagged s r c True" by (simp add: blocks_append r)
  have "tagged ?s r c True"
    by (rule tagged_frame[OF t]) (simp_all add: fr)
  then have new: "blocks ?s r [(c, True)] (r + span [(c, True)])" by simp
  have fr': "\<And>x. x < r - 4 \<or> r + span [(c, True)] - 4 \<le> x \<Longrightarrow> mem ?s x = mem s x"
    by (auto simp: fr)
  from lay_replace[OF lay r new fr'] have "heap_lay ?s (xs @ (c, True) # ys)" by simp
  moreover from rok have "rover_ok ?s (xs @ (c, True) # ys)" by (simp add: rover_ok_def)
  ultimately show ?thesis using naf by (simp add: heap_ok_def)
qed

subsection \<open>Resizing, and sequences of calls\<close>

lemma realloc_copy_Inr: "realloc_copy p sz s = Inr (copy, t) \<Longrightarrow> t = s \<and> copy \<le> sz"
  by (auto simp: realloc_copy_def bnd_eq_Inr ret_def GET64_def split: if_splits)

lemma memcpy_Inr:
  "memcpy d src n s = Inr (u, t) \<Longrightarrow>
   \<exists>m. t = s\<lparr>mem := m\<rparr> \<and> (\<forall>x. x < d \<or> d + uint n \<le> x \<longrightarrow> m x = mem s x)"
proof (cases "n = 0")
  case True
  assume "memcpy d src n s = Inr (u, t)"
  with True have "t = s\<lparr>mem := mem s\<rparr>" by (simp add: memcpy_def)
  then show ?thesis by blast
next
  case False
  assume "memcpy d src n s = Inr (u, t)"
  with False have "t = s\<lparr>mem := (\<lambda>a. if d \<le> a \<and> a < d + uint n
      then mem s (src + (a - d)) else mem s a)\<rparr>"
    by (auto simp: memcpy_def split: if_splits)
  then show ?thesis by auto
qed

text \<open>\<^verbatim>\<open>mm_realloc\<close> on an allocated block, when it returns, keeps the invariant: on failure
  the blocks are the same; otherwise the new block is allocated and every other allocated
  block but the old one stays allocated.\<close>

lemma mm_realloc_ok:
  assumes ok: "heap_ok s bs" and live: "(p, n) \<in> lives (mem_start_brk s + 16) bs"
    and sz: "uint sz \<le> 2 ^ 64 - 16"
    and run: "mm_realloc p sz s = Some (Inr (r, s'))"
  shows "mem_start_brk s' = mem_start_brk s \<and>
     ((r = NULL \<and> heap_ok s' bs) \<or>
      (r \<noteq> NULL \<and> (\<exists>bs'. heap_ok s' bs' \<and> r \<in> fst ` lives (mem_start_brk s + 16) bs' \<and>
          lives (mem_start_brk s + 16) bs - {(p, n)} \<subseteq> lives (mem_start_brk s + 16) bs')))"
proof -
  let ?P = "mem_start_brk s + 16"
  from mm_malloc_ok[OF ok sz] obtain r1 s1 where
    m: "mm_malloc sz s = Some (Inr (r1, s1))" and st1: "mem_start_brk s1 = mem_start_brk s"
    and res: "(r1 = NULL \<and> heap_ok s1 bs) \<or>
      (r1 \<noteq> NULL \<and> (\<exists>xs c ys. heap_ok s1 (xs @ (c, True) # ys) \<and>
          r1 = ?P + span xs \<and> uint sz + 8 \<le> c \<and>
          lives ?P (xs @ (c, True) # ys) = insert (r1, c) (lives ?P bs) \<and>
          r1 \<notin> fst ` lives ?P bs))"
    by blast
  from res show ?thesis
  proof
    assume n: "r1 = NULL \<and> heap_ok s1 bs"
    with run m have "r = NULL" "s' = s1"
      by (simp_all add: mm_realloc_def obnd_def lift_def ret_def)
    with n st1 show ?thesis by simp
  next
    assume "r1 \<noteq> NULL \<and> (\<exists>xs c ys. heap_ok s1 (xs @ (c, True) # ys) \<and>
          r1 = ?P + span xs \<and> uint sz + 8 \<le> c \<and>
          lives ?P (xs @ (c, True) # ys) = insert (r1, c) (lives ?P bs) \<and>
          r1 \<notin> fst ` lives ?P bs)"
    then obtain xs c ys where r0: "r1 \<noteq> NULL" and k1: "heap_ok s1 (xs @ (c, True) # ys)"
      and r1: "r1 = ?P + span xs" and c: "uint sz + 8 \<le> c"
      and lv1: "lives ?P (xs @ (c, True) # ys) = insert (r1, c) (lives ?P bs)"
      and nl: "r1 \<notin> fst ` lives ?P bs" by blast
    have z: "sz \<noteq> 0"
    proof
      assume "sz = 0"
      with m r0 show False by (simp add: mm_malloc_def lift_def ret_def)
    qed
    from run m r0 z have "bnd (realloc_copy p sz) (\<lambda>copy.
        bnd (memcpy r1 p copy) (\<lambda>_. bnd (mm_free p) (\<lambda>_. ret r1))) s1 = Inr (r, s')"
      by (simp add: mm_realloc_def obnd_def lift_def)
    then obtain copy t1 u t2 where rc: "realloc_copy p sz s1 = Inr (copy, t1)"
      and mc: "memcpy r1 p copy t1 = Inr (u, t2)"
      and fr: "bnd (mm_free p) (\<lambda>_. ret r1) t2 = Inr (r, s')"
      by (auto simp: bnd_eq_Inr)
    from realloc_copy_Inr[OF rc] have t1: "t1 = s1" and cp: "copy \<le> sz" by simp_all
    from memcpy_Inr[OF mc] t1 obtain mm where t2: "t2 = s1\<lparr>mem := mm\<rparr>"
      and mfr: "\<And>x. x < r1 \<or> r1 + uint copy \<le> x \<Longrightarrow> mm x = mem s1 x" by blast
    from cp c have "uint copy \<le> c - 8" by (simp add: word_le_def)
    then have fr2: "\<And>x. x < r1 \<or> r1 + c - 8 \<le> x \<Longrightarrow> mm x = mem s1 x"
      using mfr by auto
    have r1': "r1 = mem_start_brk s1 + 16 + span xs" by (simp add: r1 st1)
    from payload_write_ok[OF k1 r1' fr2] t2 have k2: "heap_ok t2 (xs @ (c, True) # ys)" by simp
    from live lv1 have "(p, n) \<in> lives ?P (xs @ (c, True) # ys)" by simp
    from lives_split[OF this] obtain xs2 ys2 where
      sp: "xs @ (c, True) # ys = xs2 @ (n, True) # ys2" and p: "p = ?P + span xs2" by blast
    have st2: "mem_start_brk t2 = mem_start_brk s" by (simp add: t2 st1)
    have p': "p = mem_start_brk t2 + 16 + span xs2" by (simp add: p st2)
    from mm_free_ok[OF k2[unfolded sp] p'] obtain bs' m v where
      f: "mm_free p t2 = Inr ((), t2\<lparr>mem := m, rover := v\<rparr>)"
      and k3: "heap_ok (t2\<lparr>mem := m, rover := v\<rparr>) bs'"
      and lv3: "lives (mem_start_brk t2 + 16) (xs2 @ (n, True) # ys2)
        = insert (p, n) (lives (mem_start_brk t2 + 16) bs')"
      by blast
    from fr f have rs: "r = r1" "s' = t2\<lparr>mem := m, rover := v\<rparr>"
      by (simp_all add: bnd_def ret_def)
    from lv3 sp lv1 have e: "insert (r1, c) (lives ?P bs) = insert (p, n) (lives ?P bs')"
      by (simp add: st2)
    from live nl have "r1 \<noteq> p" by force
    with e have "(r1, c) \<in> lives ?P bs'" by auto
    then have a: "r1 \<in> fst ` lives ?P bs'" by force
    from e have b: "lives ?P bs - {(p, n)} \<subseteq> lives ?P bs'" by auto
    from rs k3 a b r0 st2 show ?thesis by auto
  qed
qed

text \<open>Every permitted call keeps the invariant, and the pointers the caller holds stay
  pointers of allocated blocks.\<close>

lemma exec_ok:
  assumes ok: "heap_ok s bs" and L: "set L \<subseteq> fst ` lives (mem_start_brk s + 16) bs"
    and per: "permitted c L" and run: "exec c s = Some (Inr (r, s'))"
  shows "\<exists>bs'. heap_ok s' bs' \<and> mem_start_brk s' = mem_start_brk s \<and>
      set (held c r L) \<subseteq> fst ` lives (mem_start_brk s + 16) bs'"
proof (cases c)
  case Init
  with per show ?thesis by simp
next
  case (Malloc sz)
  with per have sz: "uint sz \<le> 2 ^ 64 - 16" by simp
  from mm_malloc_ok[OF ok sz] obtain r1 s1 where
    m: "mm_malloc sz s = Some (Inr (r1, s1))" and st1: "mem_start_brk s1 = mem_start_brk s"
    and res: "(r1 = NULL \<and> heap_ok s1 bs) \<or>
      (r1 \<noteq> NULL \<and> (\<exists>xs c ys. heap_ok s1 (xs @ (c, True) # ys) \<and>
          r1 = mem_start_brk s + 16 + span xs \<and> uint sz + 8 \<le> c \<and>
          lives (mem_start_brk s + 16) (xs @ (c, True) # ys)
            = insert (r1, c) (lives (mem_start_brk s + 16) bs) \<and>
          r1 \<notin> fst ` lives (mem_start_brk s + 16) bs))"
    by blast
  from run Malloc m have e: "r = r1" "s' = s1" by simp_all
  from res show ?thesis
  proof
    assume "r1 = NULL \<and> heap_ok s1 bs"
    with e st1 L Malloc show ?thesis by auto
  next
    assume "r1 \<noteq> NULL \<and> (\<exists>xs c ys. heap_ok s1 (xs @ (c, True) # ys) \<and>
          r1 = mem_start_brk s + 16 + span xs \<and> uint sz + 8 \<le> c \<and>
          lives (mem_start_brk s + 16) (xs @ (c, True) # ys)
            = insert (r1, c) (lives (mem_start_brk s + 16) bs) \<and>
          r1 \<notin> fst ` lives (mem_start_brk s + 16) bs)"
    then obtain xs c ys where r0: "r1 \<noteq> NULL" and k: "heap_ok s1 (xs @ (c, True) # ys)"
      and lv: "lives (mem_start_brk s + 16) (xs @ (c, True) # ys)
            = insert (r1, c) (lives (mem_start_brk s + 16) bs)" by blast
    have "set (r1 # L) \<subseteq> fst ` lives (mem_start_brk s + 16) (xs @ (c, True) # ys)"
      unfolding lv using L by force
    with k e st1 r0 Malloc show ?thesis by (auto simp del: lives.simps)
  qed
next
  case (Free p)
  show ?thesis
  proof (cases "p = NULL")
    case True
    with run Free have "s' = s" by (simp add: lift_def mm_free_def bnd_def ret_def)
    with ok L Free show ?thesis by auto
  next
    case False
    with per Free have "p \<in> set L" by simp
    with L obtain n where "(p, n) \<in> lives (mem_start_brk s + 16) bs" by auto
    from lives_split[OF this] obtain xs ys where
      sp: "bs = xs @ (n, True) # ys" and p: "p = mem_start_brk s + 16 + span xs" by blast
    from mm_free_ok[OF ok[unfolded sp] p] obtain bs' m v where
      f: "mm_free p s = Inr ((), s\<lparr>mem := m, rover := v\<rparr>)"
      and k: "heap_ok (s\<lparr>mem := m, rover := v\<rparr>) bs'"
      and lv: "lives (mem_start_brk s + 16) (xs @ (n, True) # ys)
        = insert (p, n) (lives (mem_start_brk s + 16) bs')"
      by blast
    from run Free f have s': "s' = s\<lparr>mem := m, rover := v\<rparr>"
      by (simp add: lift_def bnd_def ret_def)
    have "set (removeAll p L) \<subseteq> fst ` lives (mem_start_brk s + 16) bs'"
    proof
      fix q assume "q \<in> set (removeAll p L)"
      then have q: "q \<in> set L" "q \<noteq> p" by simp_all
      with L obtain k where "(q, k) \<in> lives (mem_start_brk s + 16) bs" by auto
      with lv sp q(2) have "(q, k) \<in> lives (mem_start_brk s + 16) bs'" by auto
      then show "q \<in> fst ` lives (mem_start_brk s + 16) bs'" by force
    qed
    with k s' Free show ?thesis by auto
  qed
next
  case (Realloc p sz)
  with per have pl: "p \<in> set L" and sz: "uint sz \<le> 2 ^ 64 - 16" by simp_all
  from pl L obtain n where live: "(p, n) \<in> lives (mem_start_brk s + 16) bs" by auto
  from run Realloc have "mm_realloc p sz s = Some (Inr (r, s'))" by simp
  from mm_realloc_ok[OF ok live sz this]
  have st: "mem_start_brk s' = mem_start_brk s"
    and res: "(r = NULL \<and> heap_ok s' bs) \<or>
      (r \<noteq> NULL \<and> (\<exists>bs'. heap_ok s' bs' \<and> r \<in> fst ` lives (mem_start_brk s + 16) bs' \<and>
          lives (mem_start_brk s + 16) bs - {(p, n)} \<subseteq> lives (mem_start_brk s + 16) bs'))"
    by simp_all
  from res show ?thesis
  proof
    assume "r = NULL \<and> heap_ok s' bs"
    with st L Realloc show ?thesis by auto
  next
    assume "r \<noteq> NULL \<and> (\<exists>bs'. heap_ok s' bs' \<and> r \<in> fst ` lives (mem_start_brk s + 16) bs' \<and>
          lives (mem_start_brk s + 16) bs - {(p, n)} \<subseteq> lives (mem_start_brk s + 16) bs')"
    then obtain bs' where r0: "r \<noteq> NULL" and k: "heap_ok s' bs'"
      and a: "r \<in> fst ` lives (mem_start_brk s + 16) bs'"
      and b: "lives (mem_start_brk s + 16) bs - {(p, n)} \<subseteq> lives (mem_start_brk s + 16) bs'"
      by blast
    have "set (removeAll p L) \<subseteq> fst ` lives (mem_start_brk s + 16) bs'"
    proof
      fix q assume "q \<in> set (removeAll p L)"
      then have q: "q \<in> set L" "q \<noteq> p" by simp_all
      with L obtain k where "(q, k) \<in> lives (mem_start_brk s + 16) bs" by auto
      with b q(2) have "(q, k) \<in> lives (mem_start_brk s + 16) bs'" by auto
      then show "q \<in> fst ` lives (mem_start_brk s + 16) bs'" by force
    qed
    with k st a r0 Realloc show ?thesis by auto
  qed
qed

lemma run_calls_ok:
  "heap_ok s bs \<Longrightarrow> set L \<subseteq> fst ` lives (mem_start_brk s + 16) bs \<Longrightarrow>
   run_calls cs s = Some (Inr (rs, t)) \<Longrightarrow> client_ok cs rs L \<Longrightarrow> \<exists>bs'. heap_ok t bs'"
proof (induction cs arbitrary: s bs L rs)
  case Nil
  then show ?case by auto
next
  case (Cons c cs)
  from Cons.prems(3) obtain r u rs' where 1: "exec c s = Some (Inr (r, u))"
    and 2: "run_calls cs u = Some (Inr (rs', t))" and rs: "rs = r # rs'"
    by (auto split: option.splits sum.splits)
  from Cons.prems(4) rs have per: "permitted c L" and cl: "client_ok cs rs' (held c r L)"
    by simp_all
  from exec_ok[OF Cons.prems(1,2) per 1] obtain bs' where k: "heap_ok u bs'"
    and st: "mem_start_brk u = mem_start_brk s"
    and h: "set (held c r L) \<subseteq> fst ` lives (mem_start_brk s + 16) bs'" by blast
  from h st have h': "set (held c r L) \<subseteq> fst ` lives (mem_start_brk u + 16) bs'" by simp
  from Cons.IH[OF k h' 2 cl] show ?case .
qed

subsection \<open>No two adjacent free blocks\<close>

lemma epilogue_reads:
  assumes "load32 (mem s) (q - 4) = tag 0 True" and "in_heap s (q - 4) 4"
  shows "GET (HDRP q) s = Inr (tag 0 True, s)" and "NEXT_BLKP q s = Inr (q, s)"
  using assms tag_size[of 0 True]
  by (simp_all add: sym_defs run_simps)

lemma tag_size_ne: "8 \<le> n \<Longrightarrow> n < 2 ^ 32 \<Longrightarrow> 8 dvd n \<Longrightarrow> tag n a AND - 8 \<noteq> 0"
proof
  assume a: "8 \<le> n" "n < 2 ^ 32" "8 dvd n" and z: "tag n a AND - 8 = 0"
  from a have "uint (tag n a AND - 8) = n" by (simp add: tag_size uint_wi_32)
  with z a(1) show False by simp
qed

lemma free_pair_tagged:
  assumes "tagged s p n a"
  shows "free_pair s p \<longleftrightarrow> \<not> a \<and>
     (case GET (HDRP (p + n)) s of
        Inr (w', _) \<Rightarrow> w' AND NOT 7 \<noteq> 0 \<and> w' AND 1 = 0 | Inl _ \<Rightarrow> False)"
proof -
  from assms have c: "8 \<le> n" "n < 2 ^ 32" "8 dvd n"
    by (auto simp: tagged_def mod_eq_0_iff_dvd)
  show ?thesis
    using tag_size_ne[OF c, of a] c(3)
    by (simp add: free_pair_def tagged_reads[OF assms] tag_alloc)
qed

text \<open>On a sequence of blocks that ends at the epilogue and has no two free neighbours, no
  block reached from its start is free and followed by a free block.\<close>

lemma no_free_pair:
  assumes ep: "load32 (mem s) (q - 4) = tag 0 True" and ih: "in_heap s (q - 4) 4"
  shows "blocks s p bs q \<Longrightarrow> no_adj_free bs \<Longrightarrow> nth_block s n p = Some bp \<Longrightarrow>
         \<not> free_pair s bp"
proof (induction bs arbitrary: p n)
  case Nil
  then have p: "p = q" by simp
  note e = epilogue_reads[OF ep ih]
  show ?case
  proof (cases n)
    case 0
    with Nil.prems(3) p have "bp = q" by simp
    then show ?thesis using e tag_size[of 0 True] by (simp add: free_pair_def)
  next
    case (Suc k)
    with Nil.prems(3) p e show ?thesis by simp
  qed
next
  case (Cons b bs)
  obtain c a where b: "b = (c, a)" by (cases b)
  from Cons.prems(1) b have t: "tagged s p c a" and r: "blocks s (p + c) bs q" by simp_all
  from t have c8: "8 \<le> c" by (simp add: tagged_def)
  show ?case
  proof (cases n)
    case 0
    with Cons.prems(3) have bp: "bp = p" by simp
    show ?thesis
    proof (cases bs)
      case Nil
      with r have "p + c = q" by simp
      with epilogue_reads(1)[OF ep ih] tag_size[of 0 True] free_pair_tagged[OF t] bp
      show ?thesis by simp
    next
      case (Cons b' bs')
      obtain c' a' where b': "b' = (c', a')" by (cases b')
      from r Cons b' have t': "tagged s (p + c) c' a'" by simp
      then have d: "8 dvd c'" by (auto simp: tagged_def mod_eq_0_iff_dvd)
      from Cons.prems(2) b Cons b' have "a \<or> a'" by simp
      with free_pair_tagged[OF t] tagged_reads(2)[OF t'] bp d show ?thesis
        by (auto simp: tag_alloc)
    qed
  next
    case (Suc k)
    with Cons.prems(3) tagged_reads(1)[OF t] c8 have "nth_block s k (p + c) = Some bp" by simp
    moreover from Cons.prems(2) b have "no_adj_free bs" by (simp add: naf_Cons)
    ultimately show ?thesis using Cons.IH[OF r] by blast
  qed
qed

lemma heap_ok_no_pair:
  assumes ok: "heap_ok t bs"
  shows "\<not> adjacent_free_at (Some (Inr (x, t))) n"
proof -
  from ok have lay: "heap_lay t bs" and naf: "no_adj_free bs" by (simp_all add: heap_ok_def)
  note d = heap_layD[OF lay]
  from lay have b: "blocks t (heap_listp t) ((8, True) # bs) (mem_brk t)"
    by (simp add: heap_lay_def)
  from naf have n: "no_adj_free ((8, True) # bs)" by (simp add: naf_Cons)
  from d(8) blocks_span_nonneg[OF d(4)] have ih: "in_heap t (mem_brk t - 4) 4"
    by (simp add: in_heap_def)
  from no_free_pair[OF d(5) ih b n] show ?thesis
    by (auto simp: adjacent_free_at_def split: option.splits)
qed

text \<open>
  The invariant that C4 states holds whenever the size adjustment does not wrap around:
  after a successful \<^verbatim>\<open>mm_init\<close> on a region of less than \<open>2^32\<close> bytes at positive
  addresses, and any sequence of calls that respects the interface, with requests of at
  most \<open>2^31 - 16\<close> bytes, the heap is a well-formed sequence of blocks from the prologue to
  the epilogue, and no block on the way from \<^verbatim>\<open>heap_listp\<close> is free and followed by a free
  block.
\<close>

theorem no_adjacent_free_blocks:
  assumes "0 < base" and "cap < 2 ^ 32"
    and "run_calls (Init # cs) (fresh base cap m) = Some (Inr (0 # rs, t))"
    and "client_ok cs rs []"
  shows "(\<exists>bs. heap_ok t bs) \<and>
         \<not> adjacent_free_at (run_calls (Init # cs) (fresh base cap m)) n"
proof -
  from assms(3) obtain t0 where 1: "mm_init (fresh base cap m) = Inr (0, t0)"
    and 2: "run_calls cs t0 = Some (Inr (rs, t))"
    by (auto simp: lift_def split: option.splits sum.splits)
  from mm_init_ok[OF 1 assms(1,2)] obtain bs0 where k0: "heap_ok t0 bs0" by blast
  have "set [] \<subseteq> fst ` lives (mem_start_brk t0 + 16) bs0" by simp
  from run_calls_ok[OF k0 this 2 assms(4)] obtain bs where k: "heap_ok t bs" by blast
  from heap_ok_no_pair[OF k, of "0 # rs" n] k show ?thesis unfolding assms(3) by blast
qed

subsection \<open>The cursor after coalescing (C8)\<close>

section \<open>Concrete runs\<close>

text \<open>Witnesses and examples, evaluated on the provider \<open>demo\<close>.\<close>

theorem adjust_size_spec_witness:
  "(5 :: size_t) \<le> 8 \<and> adjust_size 5 = 16 \<and>
   (8 :: size_t) < 100 \<and> (100 :: size_t) \<le> 18446744073709551600 \<and>
   uint (adjust_size 100) = round_up8 (uint (100 :: size_t) + 8) \<and>
   uint (adjust_size 100) = 112"
  using adjust_size_spec[of 5] adjust_size_spec[of 100]
  by (simp add: round_up8_def)

text \<open>On a concrete heap: after \<^verbatim>\<open>mm_realloc(p, 0)\<close> the header of the block still reads
  \<open>16 | 1\<close>, after \<^verbatim>\<open>mm_free(p)\<close> the block is free (and merged with its free successor).\<close>

lemma realloc_zero_example:
  "observe (run_calls [Init, Malloc 8, Realloc 4112 0] demo) [4108]
     = Some ([0, 4112, 0], [Some 17]) \<and>
   observe (run_calls [Init, Malloc 8, Free 4112] demo) [4108]
     = Some ([0, 4112, 0], [Some 4096])"
  by (simp add: eval_defs)

theorem free_list_state_never_written_witness:
  "\<exists>rs s. run_calls [Init, Malloc 100, Malloc 8, Free 4112, Realloc 4224 4]
             (fresh 4096 1048576 (\<lambda>_. 0)) = Some (Inr (rs, s)) \<and>
          rs = [0, 4112, 4224, 0, 4240] \<and>
          freeHead s = NULL \<and> firstHead s = NULL \<and> num_freeblocks s = 0"
proof -
  have "\<exists>rs s. run_calls [Init, Malloc 100, Malloc 8, Free 4112, Realloc 4224 4]
             (fresh 4096 1048576 (\<lambda>_. 0)) = Some (Inr (rs, s)) \<and> rs = [0, 4112, 4224, 0, 4240]"
    by (simp add: eval_defs)
  then obtain rs s where r: "run_calls [Init, Malloc 100, Malloc 8, Free 4112, Realloc 4224 4]
             (fresh 4096 1048576 (\<lambda>_. 0)) = Some (Inr (rs, s))" and rs: "rs = [0, 4112, 4224, 0, 4240]"
    by blast
  from free_list_state_never_written[OF r] r rs show ?thesis by blast
qed

theorem mm_check_always_aborts_witness:
  "\<exists>rs s. run_calls [Init] (fresh 4096 1048576 (\<lambda>_. 0)) = Some (Inr (rs, s)) \<and>
          rs = [0] \<and> mm_check s = Some (Inl AssertFail)"
proof -
  have "\<exists>rs s. run_calls [Init] (fresh 4096 1048576 (\<lambda>_. 0)) = Some (Inr (rs, s)) \<and> rs = [0]"
    by (simp add: eval_defs)
  then obtain rs s where r: "run_calls [Init] (fresh 4096 1048576 (\<lambda>_. 0)) = Some (Inr (rs, s))"
    and rs: "rs = [0]"
    by blast
  from mm_check_always_aborts[OF r] r rs show ?thesis by blast
qed


text \<open>
  C5, as stated, asks for a remainder of twice the minimum block size (32 bytes) before
  a block is split. Here the block at 4112 is free with 32 bytes when \<^verbatim>\<open>mm_malloc(8)\<close>,
  whose adjusted size is 16, is placed into it: the remainder is 16 bytes, and the block
  is split into an allocated block of 16 bytes (header and footer \<open>16 | 1\<close>) and a free
  block of 16 bytes (header and footer \<open>16\<close>).
\<close>

theorem place_splits_remainder_16:
  "observe (run_calls [Init, Malloc 24, Malloc 8, Free 4112, Malloc 4040] demo) [4108, 4136]
     = Some ([0, 4112, 4144, 0, 4160], [Some 32, Some 32]) \<and>
   observe (run_calls [Init, Malloc 24, Malloc 8, Free 4112, Malloc 4040, Malloc 8] demo)
       [4108, 4120, 4124, 4136]
     = Some ([0, 4112, 4144, 0, 4160, 4112], [Some 17, Some 17, Some 16, Some 16])"
  by (simp add: eval_defs)

theorem place_splits_at_16_witness:
  "\<exists>s. run_calls [Init] demo = Some (Inr ([0], s)) \<and> tagged s 4112 4096 False \<and>
        (\<exists>m'. place 4112 16 s = Inr ((), s\<lparr>mem := m'\<rparr>) \<and>
           tagged (s\<lparr>mem := m'\<rparr>) 4112 16 True \<and> tagged (s\<lparr>mem := m'\<rparr>) 4128 4080 False) \<and>
        (\<exists>m'. place 4112 4088 s = Inr ((), s\<lparr>mem := m'\<rparr>) \<and>
           tagged (s\<lparr>mem := m'\<rparr>) 4112 4096 True)"
proof -
  have "\<exists>s. run_calls [Init] demo = Some (Inr ([0], s)) \<and> tagged s 4112 4096 False"
    by (simp add: eval_defs tagged_def tag_def)
  then obtain s where r: "run_calls [Init] demo = Some (Inr ([0], s))"
    and t: "tagged s 4112 4096 False" by blast
  from place_splits_at_16[OF t, of 16] place_splits_at_16[OF t, of 4088] r t
  show ?thesis by (simp del: ex_simps) blast
qed

theorem realloc_failure_leaves_heap_witness:
  "\<exists>s s'. run_calls [Init, Malloc 8] demo = Some (Inr ([0, 4112], s)) \<and>
      0 < mem_start_brk s \<and> 0 \<le> mem_brk s \<and>
      mm_malloc 2097152 s = Some (Inr (NULL, s')) \<and>
      mm_realloc 4112 2097152 s = Some (Inr (NULL, s')) \<and>
      mem s' = mem s \<and> mem_brk s' = mem_brk s \<and> GET (HDRP 4112) s' = Inr (17, s')"
proof -
  have "\<exists>s s'. run_calls [Init, Malloc 8] demo = Some (Inr ([0, 4112], s)) \<and>
      0 < mem_start_brk s \<and> 0 \<le> mem_brk s \<and>
      mm_malloc 2097152 s = Some (Inr (NULL, s')) \<and> GET (HDRP 4112) s' = Inr (17, s')"
    by (simp add: eval_defs)
  then obtain s s' where r: "run_calls [Init, Malloc 8] demo = Some (Inr ([0, 4112], s))"
    and p: "0 < mem_start_brk s" "0 \<le> mem_brk s"
    and m: "mm_malloc 2097152 s = Some (Inr (NULL, s'))"
    and g: "GET (HDRP 4112) s' = Inr (17, s')" by blast
  from realloc_failure_leaves_heap[OF p m, of 4112] r p m g show ?thesis by blast
qed


text \<open>
  C2: \<^verbatim>\<open>mm_realloc\<close> reads the number of bytes to copy as a \<^verbatim>\<open>size_t\<close> at
  \<^verbatim>\<open>oldptr - SIZE_T_SIZE\<close>, eight bytes before the payload: the footer of the preceding
  block in the low half and the header of the old block in the high half, a value of at
  least \<open>2^32\<close>. So it copies the new size, whatever the old block holds. Here the block at
  4112 was allocated with 8 usable bytes and is resized to 12: the copy brings 12 bytes,
  and bytes 8 to 11 of the new payload (the word at 4152, which was 0) now hold the
  footer word \<open>16 | 1\<close> of the old block. With \<open>min(12, 8) = 8\<close> bytes copied, as the claim
  says, the word at 4152 would still be 0.
\<close>

theorem realloc_copies_past_old_payload:
  "observe (run_calls [Init, Malloc 8, Malloc 8] demo) [4108, 4120, 4152]
     = Some ([0, 4112, 4128], [Some 17, Some 17, Some 0]) \<and>
   observe (run_calls [Init, Malloc 8, Malloc 8, Realloc 4112 12] demo) [4140, 4152]
     = Some ([0, 4112, 4128, 4144], [Some 25, Some 17])"
  by (simp add: eval_defs)

text \<open>
  C4: \<^verbatim>\<open>mm_malloc(2^64 - 15)\<close> computes the adjusted size 0 (the addition wraps around),
  finds the free block at 4112 and "places" 0 bytes there: it returns 4112, leaves the
  block free, and overwrites the footer of the prologue with \<open>0 | 1\<close>. After two more
  allocations of 8 bytes (the first returns 4112 again) and \<^verbatim>\<open>mm_free(4112)\<close>, the block at
  4112 is free with size 32 (it has swallowed the live block at 4128), and its successor
  at 4144 is free as well: two adjacent blocks are free after a public operation returned.
\<close>

theorem adjacent_free_blocks_after_overflow:
  "observe (run_calls [Init, Malloc 18446744073709551601, Malloc 8, Malloc 8, Free 4112] demo)
       [4108, 4140]
     = Some ([0, 4112, 4112, 4128, 0], [Some 32, Some 4064]) \<and>
   adjacent_free_at
     (run_calls [Init, Malloc 18446744073709551601, Malloc 8, Malloc 8, Free 4112] demo) 1"
  by (simp add: eval_defs)


theorem find_fit_is_next_fit_witness:
  "(\<exists>s. run_calls [Init, Malloc 8] demo = Some (Inr ([0, 4112], s)) \<and>
        chain s (heap_listp s) [4104] (rover s) \<and>
        chain s (rover s) [4112, 4128] 8208 \<and>
        GET_SIZE (HDRP 8208) s = Inr (0, s) \<and>
        find_fit 16 s = Some (Inr (4128, s\<lparr>rover := 4128\<rparr>))) \<and>
   (\<exists>s. run_calls [Init, Malloc 24, Malloc 8, Free 4112, Malloc 4040] demo
          = Some (Inr ([0, 4112, 4144, 0, 4160], s)) \<and>
        chain s (heap_listp s) [4104, 4112, 4144] (rover s) \<and>
        chain s (rover s) [4160] 8208 \<and>
        GET_SIZE (HDRP 8208) s = Inr (0, s) \<and>
        find_fit 16 s = Some (Inr (4112, s\<lparr>rover := 8208\<rparr>)))"
proof -
  have "\<exists>s. run_calls [Init, Malloc 8] demo = Some (Inr ([0, 4112], s)) \<and>
        chain s (heap_listp s) [4104] (rover s) \<and>
        chain s (rover s) [4112, 4128] 8208 \<and>
        GET_SIZE (HDRP 8208) s = Inr (0, s) \<and>
        next_fit s 16 [4104] [4112, 4128] 8208 = (4128, s\<lparr>rover := 4128\<rparr>)"
    by (simp add: eval_defs next_fit_def fits_def)
  then obtain s where s: "run_calls [Init, Malloc 8] demo = Some (Inr ([0, 4112], s))"
    and c1: "chain s (heap_listp s) [4104] (rover s)"
    and c2: "chain s (rover s) [4112, 4128] 8208"
    and e: "GET_SIZE (HDRP 8208) s = Inr (0, s)"
    and n: "next_fit s 16 [4104] [4112, 4128] 8208 = (4128, s\<lparr>rover := 4128\<rparr>)" by blast
  from find_fit_is_next_fit[OF c1 c2 e, of 16] n
  have 1: "find_fit 16 s = Some (Inr (4128, s\<lparr>rover := 4128\<rparr>))" by simp
  have "\<exists>s. run_calls [Init, Malloc 24, Malloc 8, Free 4112, Malloc 4040] demo
          = Some (Inr ([0, 4112, 4144, 0, 4160], s)) \<and>
        chain s (heap_listp s) [4104, 4112, 4144] (rover s) \<and>
        chain s (rover s) [4160] 8208 \<and>
        GET_SIZE (HDRP 8208) s = Inr (0, s) \<and>
        next_fit s 16 [4104, 4112, 4144] [4160] 8208 = (4112, s\<lparr>rover := 8208\<rparr>)"
    by (simp add: eval_defs next_fit_def fits_def)
  then obtain t where t: "run_calls [Init, Malloc 24, Malloc 8, Free 4112, Malloc 4040] demo
          = Some (Inr ([0, 4112, 4144, 0, 4160], t))"
    and d1: "chain t (heap_listp t) [4104, 4112, 4144] (rover t)"
    and d2: "chain t (rover t) [4160] 8208"
    and f: "GET_SIZE (HDRP 8208) t = Inr (0, t)"
    and m: "next_fit t 16 [4104, 4112, 4144] [4160] 8208 = (4112, t\<lparr>rover := 8208\<rparr>)" by blast
  from find_fit_is_next_fit[OF d1 d2 f, of 16] m
  have 2: "find_fit 16 t = Some (Inr (4112, t\<lparr>rover := 8208\<rparr>))" by simp
  from s c1 c2 e 1 t d1 d2 f 2 show ?thesis by blast
qed

text \<open>The heap invariant on a run that allocates, frees (merging with the block after and
  with the block before) and resizes.\<close>

theorem no_adjacent_free_blocks_witness:
  "\<exists>rs t. (0 :: int) < 4096 \<and> (1048576 :: int) < 2 ^ 32 \<and>
     run_calls (Init # [Malloc 8, Malloc 24, Malloc 8, Free 4128, Realloc 4112 40, Free 4160])
        (fresh 4096 1048576 (\<lambda>_. 0)) = Some (Inr (0 # rs, t)) \<and>
     client_ok [Malloc 8, Malloc 24, Malloc 8, Free 4128, Realloc 4112 40, Free 4160] rs [] \<and>
     (\<exists>bs. heap_ok t bs) \<and>
     \<not> adjacent_free_at
         (run_calls (Init # [Malloc 8, Malloc 24, Malloc 8, Free 4128, Realloc 4112 40, Free 4160])
            (fresh 4096 1048576 (\<lambda>_. 0))) 1"
proof -
  have "\<exists>rs t.
     run_calls (Init # [Malloc 8, Malloc 24, Malloc 8, Free 4128, Realloc 4112 40, Free 4160])
        (fresh 4096 1048576 (\<lambda>_. 0)) = Some (Inr (0 # rs, t)) \<and>
     client_ok [Malloc 8, Malloc 24, Malloc 8, Free 4128, Realloc 4112 40, Free 4160] rs []"
    by (simp add: eval_defs)
  then obtain rs t where
    r: "run_calls (Init # [Malloc 8, Malloc 24, Malloc 8, Free 4128, Realloc 4112 40, Free 4160])
        (fresh 4096 1048576 (\<lambda>_. 0)) = Some (Inr (0 # rs, t))"
    and c: "client_ok [Malloc 8, Malloc 24, Malloc 8, Free 4128, Realloc 4112 40, Free 4160] rs []"
    by blast
  from no_adjacent_free_blocks[OF _ _ r c, of 1] r c show ?thesis by auto
qed
end
